theory Spec2Isabelle
  imports Complex_Main
begin

section \<open>Errors and small numpy helpers\<close>

text \<open>
  Python exceptions are values of type \<open>error\<close>; a function that can raise returns
  \<open>error + 'a\<close> with \<open>Inl\<close> for the exception.  \<open>ValueError\<close>, \<open>IndexError\<close> and
  \<open>KeyError\<close> are the built-in exceptions the modelled statements raise.
  \<open>InvalidConfiguration\<close> is the error named by the specification's taxonomy: the
  source defines no such exception, and no equation below returns it.

  Floating-point numbers are modelled as \<open>real\<close>: arithmetic is exact and
  \<open>astype('float32')\<close> is the identity.  The one exception is
  \<open>build_anchors_float32\<close>, the model of \<open>build_anchors\<close> in which the cast of
  the corner array and the conversion to center form round to single precision; it is
  used where the rounding decides the property.
\<close>

datatype error = ValueError | IndexError | KeyError | InvalidConfiguration

text \<open>\<^verbatim>\<open>a, b = xs\<close>: unpacking a sequence into two names raises ValueError unless
  the sequence has exactly two elements.\<close>

definition unpack2 :: "'a list \<Rightarrow> error + ('a \<times> 'a)" where
  "unpack2 xs = (case xs of [a, b] \<Rightarrow> Inr (a, b) | _ \<Rightarrow> Inl ValueError)"

text \<open>\<^verbatim>\<open>np.repeat(xs, n)\<close> repeats each element \<open>n\<close> times in place;
  \<^verbatim>\<open>np.tile(xs, n)\<close> repeats the whole sequence \<open>n\<close> times.\<close>

definition np_repeat :: "'a list \<Rightarrow> nat \<Rightarrow> 'a list" where
  "np_repeat xs n = concat (map (replicate n) xs)"

definition np_tile :: "'a list \<Rightarrow> nat \<Rightarrow> 'a list" where
  "np_tile xs n = concat (replicate n xs)"

text \<open>\<^verbatim>\<open>np.arange(start, stop, step)\<close> on floats has
  \<open>\<lceil>(stop - start) / step\<rceil>\<close> elements (none when that is negative), the \<open>i\<close>-th being
  \<open>start + i * step\<close>.  A zero step makes the length computation fail; numpy raises
  (ValueError for numpy scalars).  A zero feature dimension gives an infinite stride in
  numpy, for which the length computation fails in the same way; in the model
  \<open>inverse 0 = 0\<close> turns it into a zero stride, so both cases end in this branch.\<close>

definition np_arange :: "real \<Rightarrow> real \<Rightarrow> real \<Rightarrow> error + real list" where
  "np_arange start stop step =
     (if step = 0 then Inl ValueError
      else Inr (map (\<lambda>i. start + real i * step) [0..<nat \<lceil>(stop - start) / step\<rceil>]))"

text \<open>\<^verbatim>\<open>np.meshgrid(x, y)\<close> (default \<open>xy\<close> indexing): two arrays of shape
  \<open>(len(y), len(x))\<close>; the first repeats \<open>x\<close> along the rows, the second holds
  \<open>y[i]\<close> throughout row \<open>i\<close>.\<close>

definition np_meshgrid :: "'a list \<Rightarrow> 'a list \<Rightarrow> 'a list list \<times> 'a list list" where
  "np_meshgrid x y = (replicate (length y) x, map (\<lambda>v. replicate (length x) v) y)"

text \<open>\<^verbatim>\<open>a.T\<close> of a two-dimensional array given as the list of its rows.\<close>

definition np_T :: "'a list list \<Rightarrow> 'a list list" where
  "np_T a = (case a of [] \<Rightarrow> []
             | r # _ \<Rightarrow> map (\<lambda>g. map (\<lambda>row. row ! g) a) [0..<length r])"

text \<open>\<^verbatim>\<open>np.expand_dims(a, axis=1)\<close> of a two-dimensional array: every row
  becomes a one-element list of rows.\<close>

definition np_expand_dims1 :: "'a list list \<Rightarrow> 'a list list list" where
  "np_expand_dims1 a = map (\<lambda>row. [row]) a"

text \<open>\<^verbatim>\<open>np.concatenate(arrays, axis=1)\<close> of three-dimensional arrays: ValueError
  for an empty list of arrays and when the sizes along axis 0 differ.\<close>

definition np_concatenate1 :: "'a list list list list \<Rightarrow> error + 'a list list list" where
  "np_concatenate1 arrays =
     (case arrays of [] \<Rightarrow> Inl ValueError
      | a # _ \<Rightarrow>
          if \<exists>b \<in> set arrays. length b \<noteq> length a then Inl ValueError
          else Inr (map (\<lambda>g. concat (map (\<lambda>b. b ! g) arrays)) [0..<length a]))"

text \<open>\<^verbatim>\<open>np.concatenate(arrays, axis=0)\<close> of arrays with four columns each:
  ValueError for an empty list of arrays.\<close>

definition np_concatenate0 :: "'a list list list \<Rightarrow> error + 'a list list" where
  "np_concatenate0 arrays = (if arrays = [] then Inl ValueError else Inr (concat arrays))"

section \<open>Anchor generation (examples/efficientdet/anchors.py)\<close>

text \<open>A branch is represented by its \<open>shape\<close> attribute, a tuple of dimensions.\<close>

type_synonym branch = "nat list"

definition build_octaves :: "nat \<Rightarrow> real list \<Rightarrow> real list" where
  "build_octaves num_scales aspect_ratios =
     map (\<lambda>v. real v / real num_scales) (np_repeat [0..<num_scales] (length aspect_ratios))"

definition build_aspect :: "real list \<Rightarrow> nat \<Rightarrow> real list" where
  "build_aspect aspect_ratios num_scales = np_tile aspect_ratios num_scales"

definition build_scales :: "real \<Rightarrow> nat \<Rightarrow> real list" where
  "build_scales scale num_scale_aspect = replicate num_scale_aspect scale"

definition build_strides ::
  "nat \<Rightarrow> int list \<Rightarrow> branch list \<Rightarrow> nat \<Rightarrow> error + (real list \<times> real list)" where
  "build_strides branch_arg image_shape branches num_scale_aspect =
     (case unpack2 image_shape of Inl e \<Rightarrow> Inl e
      | Inr (base_feature_H, base_feature_W) \<Rightarrow>
     (case unpack2 (take 2 (drop 1 (branches ! branch_arg))) of Inl e \<Rightarrow> Inl e
      | Inr (feature_H, feature_W) \<Rightarrow>
          let features_H = replicate num_scale_aspect (real feature_H);
              features_W = replicate num_scale_aspect (real feature_W);
              H_inverse = map inverse features_H;
              W_inverse = map inverse features_W;
              strides_y = map (\<lambda>v. real_of_int base_feature_H * v) H_inverse;
              strides_x = map (\<lambda>v. real_of_int base_feature_W * v) W_inverse
          in Inr (strides_y, strides_x)))"

text \<open>The result is the \<open>4 \<times> G\<close> array of corner coordinates, as the list of its
  four rows.  Note that the source unpacks \<open>image_shape\<close> into \<open>W, H\<close>, in this order.\<close>

definition compute_box_coordinates ::
  "int list \<Rightarrow> real \<Rightarrow> real \<Rightarrow> real \<Rightarrow> real \<Rightarrow> real \<Rightarrow> error + real list list" where
  "compute_box_coordinates image_shape stride_y stride_x octave_scale aspect scale =
     (case unpack2 image_shape of Inl e \<Rightarrow> Inl e
      | Inr (W, H) \<Rightarrow>
          let base_anchor_W = scale * stride_x * (2 powr octave_scale);
              base_anchor_H = scale * stride_y * (2 powr octave_scale);
              aspect_W = sqrt aspect;
              aspect_H = 1 / sqrt aspect;
              anchor_W = (base_anchor_W * aspect_W / 2) / real_of_int H;
              anchor_H = (base_anchor_H * aspect_H / 2) / real_of_int W
          in (case np_arange (stride_x / 2) (real_of_int H) stride_x of Inl e \<Rightarrow> Inl e
              | Inr x \<Rightarrow>
             (case np_arange (stride_y / 2) (real_of_int W) stride_y of Inl e \<Rightarrow> Inl e
              | Inr y \<Rightarrow>
                  let (mesh_x, mesh_y) = np_meshgrid x y;
                      center_x = map (\<lambda>v. v / real_of_int H) (concat mesh_x);
                      center_y = map (\<lambda>v. v / real_of_int W) (concat mesh_y)
                  in Inr [map (\<lambda>c. c - anchor_W) center_x,
                          map (\<lambda>c. c - anchor_H) center_y,
                          map (\<lambda>c. c + anchor_W) center_x,
                          map (\<lambda>c. c + anchor_H) center_y])))"

text \<open>The loop of \<open>build_branch_boxes\<close> over the zipped configurations: every
  \<open>4 \<times> G\<close> array is transposed and given a middle axis of size one.\<close>

fun branch_boxes_loop ::
  "int list \<Rightarrow> (real \<times> real \<times> real \<times> real \<times> real) list \<Rightarrow> error + real list list list list"
where
  "branch_boxes_loop image_shape [] = Inr []"
| "branch_boxes_loop image_shape ((stride_y, stride_x, octave, aspect, scale) # configs) =
     (case compute_box_coordinates image_shape stride_y stride_x octave aspect scale of
        Inl e \<Rightarrow> Inl e
      | Inr boxes \<Rightarrow>
         (case branch_boxes_loop image_shape configs of Inl e \<Rightarrow> Inl e
          | Inr branch_boxes \<Rightarrow> Inr (np_expand_dims1 (np_T boxes) # branch_boxes)))"

definition build_branch_boxes ::
  "real list \<Rightarrow> real list \<Rightarrow> real list \<Rightarrow> real list \<Rightarrow> real list \<Rightarrow> int list
     \<Rightarrow> error + real list list list" where
  "build_branch_boxes stride_y stride_x octave aspect scales image_shape =
     (case branch_boxes_loop image_shape
             (zip stride_y (zip stride_x (zip octave (zip aspect scales)))) of
        Inl e \<Rightarrow> Inl e
      | Inr branch_boxes \<Rightarrow> np_concatenate1 branch_boxes)"

text \<open>Modelled from the spec: \<open>to_center_form\<close> of \<open>paz.backend.boxes\<close>, which is
  imported but not part of the sources at hand.  The specification describes it as the
  conversion of a corner-form array \<open>(x_min, y_min, x_max, y_max)\<close> to center form
  \<open>(center_x, center_y, width, height)\<close>.\<close>

definition to_center_form :: "real list list \<Rightarrow> real list list" where
  "to_center_form boxes =
     map (\<lambda>b. [(b ! 0 + b ! 2) / 2, (b ! 1 + b ! 3) / 2, b ! 2 - b ! 0, b ! 3 - b ! 1]) boxes"

text \<open>Modelled from the spec: the inverse conversion from center form back to corner
  form, which the round-trip property of the specification refers to.\<close>

definition to_corner_form :: "real list list \<Rightarrow> real list list" where
  "to_corner_form boxes =
     map (\<lambda>b. [b ! 0 - b ! 2 / 2, b ! 1 - b ! 3 / 2, b ! 0 + b ! 2 / 2, b ! 1 + b ! 3 / 2]) boxes"

text \<open>The loop of \<open>build_anchors\<close> over the branch indices; \<open>reshape([-1, 4])\<close>
  flattens the two leading axes of the \<open>G \<times> K \<times> 4\<close> array.\<close>

fun anchors_loop ::
  "int list \<Rightarrow> branch list \<Rightarrow> nat \<Rightarrow> real list \<Rightarrow> real \<Rightarrow> nat list
     \<Rightarrow> error + real list list list" where
  "anchors_loop image_shape branches num_scales aspect_ratios scale [] = Inr []"
| "anchors_loop image_shape branches num_scales aspect_ratios scale (branch_arg # rest) =
     (let num_scale_aspect = num_scales * length aspect_ratios in
      case build_strides branch_arg image_shape branches num_scale_aspect of Inl e \<Rightarrow> Inl e
      | Inr (stride_y, stride_x) \<Rightarrow>
          let octave = build_octaves num_scales aspect_ratios;
              aspect = build_aspect aspect_ratios num_scales;
              scales = build_scales scale num_scale_aspect
          in (case build_branch_boxes stride_y stride_x octave aspect scales image_shape of
                Inl e \<Rightarrow> Inl e
              | Inr branch_boxes \<Rightarrow>
                 (case anchors_loop image_shape branches num_scales aspect_ratios scale rest of
                    Inl e \<Rightarrow> Inl e
                  | Inr anchor_boxes \<Rightarrow> Inr (concat branch_boxes # anchor_boxes))))"

definition build_anchors ::
  "int list \<Rightarrow> branch list \<Rightarrow> nat \<Rightarrow> real list \<Rightarrow> real \<Rightarrow> error + real list list" where
  "build_anchors image_shape branches num_scales aspect_ratios scale =
     (case anchors_loop image_shape branches num_scales aspect_ratios scale
             [0..<length branches] of
        Inl e \<Rightarrow> Inl e
      | Inr anchor_boxes \<Rightarrow>
         (case np_concatenate0 anchor_boxes of Inl e \<Rightarrow> Inl e
          | Inr boxes \<Rightarrow> Inr (to_center_form boxes)))"

subsection \<open>The cast to single precision\<close>

text \<open>\<^verbatim>\<open>astype('float32')\<close> rounds every entry to the nearest IEEE 754 binary32
  number, ties to the one with an even significand.  A binary32 number with exponent
  \<open>e\<close> (from \<open>-126\<close> to \<open>127\<close>) is an integer multiple of \<open>2 ^ (e - 23)\<close>; the
  exponent of \<open>x\<close> is the \<open>e\<close> with \<open>2 ^ e \<le> \<bar>x\<bar> < 2 ^ (e + 1)\<close>, and \<open>-126\<close>
  for every smaller magnitude (zero and the subnormal range, where the spacing is
  \<open>2 ^ -149\<close>).  Overflow is left out: a magnitude of \<open>2 ^ 128\<close> or more, which numpy
  turns into an infinity, is rounded with the spacing of exponent 127.\<close>

text \<open>Rounding to the nearest integer, a tie going to the even neighbour.\<close>

definition round_half_even :: "real \<Rightarrow> int" where
  "round_half_even t =
     (if frac t = 1 / 2 then (if even \<lfloor>t\<rfloor> then \<lfloor>t\<rfloor> else \<lfloor>t\<rfloor> + 1) else round t)"

text \<open>The binary32 exponent of a magnitude \<open>a\<close>: starting from \<open>e\<close>, the first
  exponent whose upper bound \<open>2 ^ (e + 1)\<close> exceeds \<open>a\<close>, after at most \<open>n\<close> steps.\<close>

fun exponent_search :: "real \<Rightarrow> int \<Rightarrow> nat \<Rightarrow> int" where
  "exponent_search a e 0 = e"
| "exponent_search a e (Suc n) =
     (if a < 2 powi (e + 1) then e else exponent_search a (e + 1) n)"

definition float32_exponent :: "real \<Rightarrow> int" where
  "float32_exponent x = exponent_search \<bar>x\<bar> (- 126) 253"

definition float32 :: "real \<Rightarrow> real" where
  "float32 x =
     (let q = 2 powi (float32_exponent x - 23)
      in q * real_of_int (round_half_even (x / q)))"




subsection \<open>Closed forms used in the statements\<close>

text \<open>The corner-form box at grid row \<open>iy\<close> and grid column \<open>ix\<close> of one level,
  for one octave, aspect ratio and scale.  \<open>image_H\<close> and \<open>image_W\<close> are the two
  entries of \<open>image_shape\<close> in the order \<open>build_strides\<close> reads them.\<close>

definition grid_box ::
  "int \<Rightarrow> int \<Rightarrow> real \<Rightarrow> real \<Rightarrow> real \<Rightarrow> real \<Rightarrow> real \<Rightarrow> nat \<Rightarrow> nat \<Rightarrow> real list" where
  "grid_box image_H image_W stride_y stride_x octave aspect scale iy ix =
     (let center_x = (stride_x / 2 + real ix * stride_x) / real_of_int image_W;
          center_y = (stride_y / 2 + real iy * stride_y) / real_of_int image_H;
          half_W = (scale * stride_x * (2 powr octave) * sqrt aspect / 2) / real_of_int image_W;
          half_H = (scale * stride_y * (2 powr octave) * (1 / sqrt aspect) / 2) / real_of_int image_H
      in [center_x - half_W, center_y - half_H, center_x + half_W, center_y + half_H])"

definition anchor_rows :: "int \<Rightarrow> int \<Rightarrow> nat \<Rightarrow> real list \<Rightarrow> real \<Rightarrow> branch \<Rightarrow> real list list" where
  "anchor_rows image_H image_W num_scales aspect_ratios scale b =
     concat (map (\<lambda>iy.
       concat (map (\<lambda>ix.
         concat (map (\<lambda>s.
           map (\<lambda>aspect.
                  grid_box image_H image_W
                    (real_of_int image_H * inverse (real (b ! 1)))
                    (real_of_int image_W * inverse (real (b ! 2)))
                    (real s / real num_scales) aspect scale iy ix)
               aspect_ratios)
           [0..<num_scales]))
         [0..<b ! 2]))
       [0..<b ! 1])"

definition valid_branch :: "branch \<Rightarrow> bool" where
  "valid_branch b \<longleftrightarrow> 3 \<le> length b \<and> 0 < b ! 1 \<and> 0 < b ! 2"

text \<open>The computation as the specification words it, for comparison with
  \<open>compute_box_coordinates\<close>: half-width normalised by the image height, half-height
  by the image width, x-centers \<open>arange(stride_x / 2, image_H, stride_x) / image_H\<close> and
  y-centers \<open>arange(stride_y / 2, image_W, stride_y) / image_W\<close>.\<close>

definition claimed_box_coordinates ::
  "int \<Rightarrow> int \<Rightarrow> real \<Rightarrow> real \<Rightarrow> real \<Rightarrow> real \<Rightarrow> real \<Rightarrow> error + real list list" where
  "claimed_box_coordinates image_H image_W stride_y stride_x octave aspect scale =
     (let base_anchor_width = scale * stride_x * (2 powr octave);
          base_anchor_height = scale * stride_y * (2 powr octave);
          anchor_half_width = (base_anchor_width * sqrt aspect / 2) / real_of_int image_H;
          anchor_half_height = (base_anchor_height * (1 / sqrt aspect) / 2) / real_of_int image_W
      in (case np_arange (stride_x / 2) (real_of_int image_H) stride_x of Inl e \<Rightarrow> Inl e
          | Inr x \<Rightarrow>
         (case np_arange (stride_y / 2) (real_of_int image_W) stride_y of Inl e \<Rightarrow> Inl e
          | Inr y \<Rightarrow>
              let (mesh_x, mesh_y) = np_meshgrid x y;
                  center_x = map (\<lambda>v. v / real_of_int image_H) (concat mesh_x);
                  center_y = map (\<lambda>v. v / real_of_int image_W) (concat mesh_y)
              in Inr [map (\<lambda>c. c - anchor_half_width) center_x,
                      map (\<lambda>c. c - anchor_half_height) center_y,
                      map (\<lambda>c. c + anchor_half_width) center_x,
                      map (\<lambda>c. c + anchor_half_height) center_y])))"

section \<open>Synthetic shapes loader (examples/mask_rcnn/shapes_loader.py)\<close>

text \<open>
  The methods of the class \<open>Shapes\<close> are functions of the attributes they read (a
  \<open>loader\<close> record).  A method \<open>_name\<close> of the source is the constant \<open>name\<close>;
  the local names \<open>size\<close>, \<open>image\<close> and \<open>color\<close> of the source are written
  \<open>size'\<close>, \<open>img\<close> and \<open>col\<close>.  The informational \<open>split\<close> argument of the
  constructor is left out.
\<close>

subsection \<open>Random sources\<close>

text \<open>
  The module draws from two global generators, Python's \<open>random\<close> and numpy's
  \<open>np.random\<close>.  Each is modelled by the list of raw values it will produce next (an
  exhausted list continues with zeros), passed through the functions as explicit state.
  A draw from a range maps the next raw value into the range, so that every element of
  the range is the result for some raw value.  Probabilities are not modelled.
\<close>

record rng =
  py_random :: "nat list"
  np_random :: "nat list"

definition next_raw :: "nat list \<Rightarrow> nat \<times> nat list" where
  "next_raw raws = (case raws of [] \<Rightarrow> (0, []) | r # rest \<Rightarrow> (r, rest))"

text \<open>\<^verbatim>\<open>random.randint(a, b)\<close>: an integer of the closed interval \<open>[a, b]\<close>;
  ValueError when the interval is empty.\<close>

definition random_randint :: "int \<Rightarrow> int \<Rightarrow> rng \<Rightarrow> error + (int \<times> rng)" where
  "random_randint a b g =
     (if b < a then Inl ValueError
      else let (r, rest) = next_raw (py_random g)
           in Inr (a + int (r mod nat (b - a + 1)), g\<lparr>py_random := rest\<rparr>))"

text \<open>\<^verbatim>\<open>random.choice(seq)\<close>: IndexError for an empty sequence.\<close>

definition random_choice :: "'a list \<Rightarrow> rng \<Rightarrow> error + ('a \<times> rng)" where
  "random_choice seq g =
     (if seq = [] then Inl IndexError
      else let (r, rest) = next_raw (py_random g)
           in Inr (seq ! (r mod length seq), g\<lparr>py_random := rest\<rparr>))"

text \<open>\<^verbatim>\<open>np.random.randint(low, high, size=n)\<close>: \<open>n\<close> integers of the half-open
  interval \<open>[low, high)\<close>, the upper bound excluded; ValueError when \<open>low >= high\<close>.\<close>

fun np_random_randint :: "nat \<Rightarrow> nat \<Rightarrow> nat \<Rightarrow> rng \<Rightarrow> error + (nat list \<times> rng)" where
  "np_random_randint low high 0 g = (if high \<le> low then Inl ValueError else Inr ([], g))"
| "np_random_randint low high (Suc n) g =
     (if high \<le> low then Inl ValueError
      else let (r, rest) = next_raw (np_random g)
           in (case np_random_randint low high n (g\<lparr>np_random := rest\<rparr>) of
                 Inl e \<Rightarrow> Inl e
               | Inr (values, g') \<Rightarrow> Inr ((low + r mod (high - low)) # values, g')))"

subsection \<open>Data\<close>

text \<open>A shape descriptor is the tuple \<open>(shape, color, (center_x, center_y, size))\<close>.
  Arrays of pixels are lists of rows of pixels, a pixel being the list of its channel
  values (\<open>H \<times> W \<times> channels\<close>).\<close>

type_synonym color = "nat list"

type_synonym shape = "string \<times> color \<times> (int \<times> int \<times> int)"

type_synonym image = "nat list list list"

text \<open>The attributes of a \<open>Shapes\<close> object that the methods read.\<close>

record loader =
  class_names :: "string list"
  num_samples :: nat
  image_size :: "int \<times> int"
  iou_thresh :: real
  max_num_shapes :: int

text \<open>The constructor; \<open>None\<close> stands for the default \<^verbatim>\<open>class_names='all'\<close>.\<close>

definition Shapes :: "nat \<Rightarrow> int \<times> int \<Rightarrow> string list option \<Rightarrow> real \<Rightarrow> int \<Rightarrow> loader" where
  "Shapes n_samples img_size names thresh max_shapes =
     \<lparr>class_names = (case names of None \<Rightarrow> [''BG'', ''square'', ''circle'', ''triangle'']
                      | Some cs \<Rightarrow> cs),
      num_samples = n_samples, image_size = img_size, iou_thresh = thresh,
      max_num_shapes = max_shapes\<rparr>"

text \<open>\<^verbatim>\<open>dict(zip(keys, values))\<close>: a later pair overrides an earlier one with the
  same key.\<close>

definition dict_zip :: "'k list \<Rightarrow> 'v list \<Rightarrow> ('k \<rightharpoonup> 'v)" where
  "dict_zip keys values = map_of (rev (zip keys values))"

definition name_to_arg :: "loader \<Rightarrow> (string \<rightharpoonup> nat)" where
  "name_to_arg L = dict_zip (class_names L) [0..<length (class_names L)]"

record sample =
  image :: image
  masks :: image
  box_data :: "int list list"

subsection \<open>Sampling shape descriptors\<close>

definition sample_shape :: "loader \<Rightarrow> int \<Rightarrow> int \<Rightarrow> int \<Rightarrow> rng \<Rightarrow> error + (shape \<times> rng)" where
  "sample_shape L H W offset g =
     (case random_choice (drop 1 (class_names L)) g of Inl e \<Rightarrow> Inl e
      | Inr (shape, g1) \<Rightarrow>
     (case np_random_randint 0 255 3 g1 of Inl e \<Rightarrow> Inl e
      | Inr (color, g2) \<Rightarrow>
     (case random_randint offset (W - offset - 1) g2 of Inl e \<Rightarrow> Inl e
      | Inr (center_x, g3) \<Rightarrow>
     (case random_randint offset (H - offset - 1) g3 of Inl e \<Rightarrow> Inl e
      | Inr (center_y, g4) \<Rightarrow>
     (case random_randint offset (H div 4) g4 of Inl e \<Rightarrow> Inl e
      | Inr (size', g5) \<Rightarrow> Inr ((shape, color, (center_x, center_y, size')), g5))))))"

text \<open>The loop of \<open>_sample_shapes\<close>; it passes \<open>offset=20\<close> whatever its own
  \<open>offset\<close> argument is.\<close>

fun sample_shapes_loop :: "loader \<Rightarrow> int \<Rightarrow> int \<Rightarrow> nat \<Rightarrow> rng \<Rightarrow> error + (shape list \<times> rng)" where
  "sample_shapes_loop L H W 0 g = Inr ([], g)"
| "sample_shapes_loop L H W (Suc n) g =
     (case sample_shape L H W 20 g of Inl e \<Rightarrow> Inl e
      | Inr (s, g1) \<Rightarrow>
         (case sample_shapes_loop L H W n g1 of Inl e \<Rightarrow> Inl e
          | Inr (shapes, g2) \<Rightarrow> Inr (s # shapes, g2)))"

definition sample_shapes ::
  "loader \<Rightarrow> int \<Rightarrow> int \<Rightarrow> int \<Rightarrow> int \<Rightarrow> rng \<Rightarrow> error + (shape list \<times> rng)" where
  "sample_shapes L num_shapes H W offset g =
     (case random_randint 1 num_shapes g of Inl e \<Rightarrow> Inl e
      | Inr (N, g1) \<Rightarrow> sample_shapes_loop L H W (nat N) g1)"

subsection \<open>Bounding boxes and filtering\<close>

definition compute_bounding_box :: "int \<Rightarrow> int \<Rightarrow> int \<Rightarrow> int list" where
  "compute_bounding_box center_x center_y size' =
     (let x_min = center_x - size'; y_min = center_y - size';
          x_max = center_x + size'; y_max = center_y + size'
      in [x_min, y_min, x_max, y_max])"

definition compute_bounding_boxes :: "shape list \<Rightarrow> int list list" where
  "compute_bounding_boxes shapes =
     map (\<lambda>(shape, color, (center_x, center_y, size')).
            compute_bounding_box center_x center_y size') shapes"

text \<open>Modelled from the spec: \<open>apply_non_max_suppression\<close> of \<open>paz.backend.boxes\<close>,
  which is imported but not part of the sources at hand.  The specification describes it
  as a greedy overlap filter returning the ordered kept indices and their count: boxes
  are visited by decreasing score, ties in original index order, and a box is dropped
  when its intersection over union with an already kept box exceeds \<open>iou_thresh\<close>.
  The intersection over union of two corner-form boxes is the usual ratio of the area of
  their intersection to the area of their union.\<close>

definition box_iou :: "int list \<Rightarrow> int list \<Rightarrow> real" where
  "box_iou a b =
     (let w = max 0 (min (a ! 2) (b ! 2) - max (a ! 0) (b ! 0));
          h = max 0 (min (a ! 3) (b ! 3) - max (a ! 1) (b ! 1));
          intersection = w * h;
          area_a = (a ! 2 - a ! 0) * (a ! 3 - a ! 1);
          area_b = (b ! 2 - b ! 0) * (b ! 3 - b ! 1)
      in real_of_int intersection / real_of_int (area_a + area_b - intersection))"

fun nms_select :: "int list list \<Rightarrow> real \<Rightarrow> nat list \<Rightarrow> nat list \<Rightarrow> nat list" where
  "nms_select boxes thresh kept [] = kept"
| "nms_select boxes thresh kept (i # rest) =
     (if \<exists>k \<in> set kept. thresh < box_iou (boxes ! k) (boxes ! i)
      then nms_select boxes thresh kept rest
      else nms_select boxes thresh (kept @ [i]) rest)"

definition apply_non_max_suppression ::
  "int list list \<Rightarrow> real list \<Rightarrow> real \<Rightarrow> nat list \<times> nat" where
  "apply_non_max_suppression boxes scores thresh =
     (let order = sort_key (\<lambda>i. - (scores ! i)) [0..<length boxes];
          kept = nms_select boxes thresh [] order
      in (kept, length kept))"

text \<open>\<^verbatim>\<open>xs[i]\<close> for every index of a list of indices: IndexError out of range.\<close>

fun py_getitems :: "'a list \<Rightarrow> nat list \<Rightarrow> error + 'a list" where
  "py_getitems xs [] = Inr []"
| "py_getitems xs (i # rest) =
     (if length xs \<le> i then Inl IndexError
      else (case py_getitems xs rest of Inl e \<Rightarrow> Inl e | Inr ys \<Rightarrow> Inr (xs ! i # ys)))"

definition filter_shapes ::
  "int list list \<Rightarrow> shape list \<Rightarrow> real \<Rightarrow> error + (shape list \<times> int list list)" where
  "filter_shapes boxes shapes thresh =
     (let scores = replicate (length boxes) 1;
          (args, num_boxes) = apply_non_max_suppression boxes scores thresh;
          box_args = take num_boxes args
      in (case py_getitems shapes box_args of Inl e \<Rightarrow> Inl e
          | Inr selected_shapes \<Rightarrow>
             (case py_getitems boxes box_args of Inl e \<Rightarrow> Inl e
              | Inr selected_boxes \<Rightarrow> Inr (selected_shapes, selected_boxes))))"

subsection \<open>Drawing\<close>

text \<open>Modelled from the spec: the primitives \<open>draw_square\<close>, \<open>draw_circle\<close> and
  \<open>draw_triangle\<close> of \<open>paz.backend.image.draw\<close>, which are imported but not part of the
  sources at hand.  The specification treats them as black boxes that return the image
  with the shape stamped on it in the given colour.  The rasterisation, that is which
  pixels \<open>(x, y)\<close> a shape with a given center and size covers, is a parameter.\<close>

type_synonym raster = "int \<times> int \<Rightarrow> int \<Rightarrow> int \<Rightarrow> int \<Rightarrow> bool"

record primitives =
  square_covers :: raster
  circle_covers :: raster
  triangle_covers :: raster

definition stamp :: "raster \<Rightarrow> image \<Rightarrow> int \<times> int \<Rightarrow> color \<Rightarrow> int \<Rightarrow> image" where
  "stamp covers img center col size' =
     map (\<lambda>(y, row).
            map (\<lambda>(x, pixel).
                   if covers center size' (int x) (int y) then take (length pixel) col else pixel)
                (enumerate 0 row))
         (enumerate 0 img)"

definition draw_square :: "primitives \<Rightarrow> image \<Rightarrow> int \<times> int \<Rightarrow> color \<Rightarrow> int \<Rightarrow> image" where
  "draw_square P = stamp (square_covers P)"

definition draw_circle :: "primitives \<Rightarrow> image \<Rightarrow> int \<times> int \<Rightarrow> color \<Rightarrow> int \<Rightarrow> image" where
  "draw_circle P = stamp (circle_covers P)"

definition draw_triangle :: "primitives \<Rightarrow> image \<Rightarrow> int \<times> int \<Rightarrow> color \<Rightarrow> int \<Rightarrow> image" where
  "draw_triangle P = stamp (triangle_covers P)"

text \<open>\<^verbatim>\<open>draw[shape]\<close> raises KeyError for a name without a drawing function.\<close>

definition draw_shape ::
  "primitives \<Rightarrow> loader \<Rightarrow> image \<Rightarrow> string \<Rightarrow> int \<times> int \<times> int \<Rightarrow> color \<Rightarrow> error + image" where
  "draw_shape P L img shape dimensions col =
     (let (center_x, center_y, size') = dimensions;
          functions = [draw_square P, draw_circle P, draw_triangle P];
          draw = dict_zip (drop 1 (class_names L)) functions
      in (case draw shape of None \<Rightarrow> Inl KeyError
          | Some f \<Rightarrow> Inr (f img (center_x, center_y) col size')))"

text \<open>\<^verbatim>\<open>np.zeros([H, W, c])\<close> and \<^verbatim>\<open>np.ones([H, W, 3]) * color\<close>: ValueError
  for a negative dimension.\<close>

definition np_full :: "int \<Rightarrow> int \<Rightarrow> nat list \<Rightarrow> error + image" where
  "np_full H W pixel =
     (if H < 0 \<or> W < 0 then Inl ValueError
      else Inr (replicate (nat H) (replicate (nat W) pixel)))"

fun draw_shapes_loop :: "primitives \<Rightarrow> loader \<Rightarrow> image \<Rightarrow> shape list \<Rightarrow> error + image" where
  "draw_shapes_loop P L img [] = Inr img"
| "draw_shapes_loop P L img ((shape, col, dimensions) # rest) =
     (case draw_shape P L img shape dimensions col of Inl e \<Rightarrow> Inl e
      | Inr img' \<Rightarrow> draw_shapes_loop P L img' rest)"

definition draw_shapes ::
  "primitives \<Rightarrow> loader \<Rightarrow> shape list \<Rightarrow> rng \<Rightarrow> error + (image \<times> rng)" where
  "draw_shapes P L shapes g =
     (let (H, W) = image_size L in
      case np_random_randint 0 255 3 g of Inl e \<Rightarrow> Inl e
      | Inr (background_color, g1) \<Rightarrow>
         (case np_full H W background_color of Inl e \<Rightarrow> Inl e
          | Inr img \<Rightarrow>
             (case draw_shapes_loop P L img shapes of Inl e \<Rightarrow> Inl e
              | Inr img' \<Rightarrow> Inr (img', g1))))"

subsection \<open>Instance masks\<close>

text \<open>The loop over \<open>enumerate(shapes)\<close>: \<^verbatim>\<open>class_masks[shape_arg]\<close> raises
  IndexError when the index is not below the number of allocated masks.\<close>

fun draw_class_masks_loop ::
  "primitives \<Rightarrow> loader \<Rightarrow> image list \<Rightarrow> nat \<Rightarrow> shape list \<Rightarrow> error + image list" where
  "draw_class_masks_loop P L class_masks shape_arg [] = Inr class_masks"
| "draw_class_masks_loop P L class_masks shape_arg ((shape, col, dimensions) # rest) =
     (if length class_masks \<le> shape_arg then Inl IndexError
      else (case draw_shape P L (class_masks ! shape_arg) shape dimensions [1, 1, 1] of
              Inl e \<Rightarrow> Inl e
            | Inr class_mask \<Rightarrow>
                draw_class_masks_loop P L (class_masks[shape_arg := class_mask])
                  (Suc shape_arg) rest))"

text \<open>\<^verbatim>\<open>np.concatenate(arrays, axis=-1)\<close> of \<open>H \<times> W \<times> c\<close> arrays: ValueError for an
  empty list and when the leading dimensions differ.\<close>

definition np_concatenate_last :: "image list \<Rightarrow> error + image" where
  "np_concatenate_last arrays =
     (case arrays of [] \<Rightarrow> Inl ValueError
      | a # _ \<Rightarrow>
          if \<exists>b \<in> set arrays. map length b \<noteq> map length a then Inl ValueError
          else Inr (map (\<lambda>y. map (\<lambda>x. concat (map (\<lambda>b. b ! y ! x) arrays))
                                  [0..<length (a ! y)])
                        [0..<length a]))"

definition astype_uint8 :: "image \<Rightarrow> image" where
  "astype_uint8 a = map (map (map (\<lambda>v. v mod 256))) a"

text \<open>Lines 106 to 115 of \<open>_draw_masks\<close>: the allocated masks, the drawing loop and
  the concatenation.\<close>

definition draw_class_masks :: "primitives \<Rightarrow> loader \<Rightarrow> shape list \<Rightarrow> error + image" where
  "draw_class_masks P L shapes =
     (let (H, W) = image_size L in
      case (if max_num_shapes L \<le> 0 then Inr []
            else (case np_full H W [0] of Inl e \<Rightarrow> Inl e
                  | Inr zeros \<Rightarrow> Inr (replicate (nat (max_num_shapes L)) zeros))) of
        Inl e \<Rightarrow> Inl e
      | Inr class_masks \<Rightarrow>
         (case draw_class_masks_loop P L class_masks 0 shapes of Inl e \<Rightarrow> Inl e
          | Inr class_masks' \<Rightarrow>
             (case np_concatenate_last class_masks' of Inl e \<Rightarrow> Inl e
              | Inr m \<Rightarrow> Inr (astype_uint8 m))))"

text \<open>Channel slices \<^verbatim>\<open>masks[:, :, i]\<close>, read and assigned, and the element-wise
  logical operations, whose results are boolean arrays.\<close>

definition get_channel :: "image \<Rightarrow> nat \<Rightarrow> nat list list" where
  "get_channel m i = map (map (\<lambda>pixel. pixel ! i)) m"

definition set_channel :: "image \<Rightarrow> nat \<Rightarrow> nat list list \<Rightarrow> image" where
  "set_channel m i values = map2 (map2 (\<lambda>pixel v. pixel[i := v])) m values"

definition np_logical_and :: "nat list list \<Rightarrow> nat list list \<Rightarrow> bool list list" where
  "np_logical_and a b = map2 (map2 (\<lambda>u v. u \<noteq> 0 \<and> v \<noteq> 0)) a b"

definition np_logical_xor :: "nat list list \<Rightarrow> bool list list \<Rightarrow> bool list list" where
  "np_logical_xor a b = map2 (map2 (\<lambda>u v. (u \<noteq> 0) \<noteq> v)) a b"

definition bool_astype_uint8 :: "bool list list \<Rightarrow> nat list list" where
  "bool_astype_uint8 a = map (map (\<lambda>v. if v then 1 else 0)) a"

text \<open>Lines 117 to 121 of \<open>_draw_masks\<close>: the body of the inner loop and the two
  loops; \<open>n\<close> is \<^verbatim>\<open>masks.shape[-1]\<close>.\<close>

definition occlusion_step :: "image \<Rightarrow> nat \<Rightarrow> nat \<Rightarrow> image" where
  "occlusion_step m i j =
     (let occulusions = np_logical_and (get_channel m i) (get_channel m j)
      in set_channel m i (bool_astype_uint8 (np_logical_xor (get_channel m i) occulusions)))"

definition resolve_occlusion :: "nat \<Rightarrow> image \<Rightarrow> image" where
  "resolve_occlusion n m =
     foldl (\<lambda>m i. foldl (\<lambda>m j. occlusion_step m i j) m [i + 1..<n]) m [0..<n]"

definition draw_masks :: "primitives \<Rightarrow> loader \<Rightarrow> shape list \<Rightarrow> error + image" where
  "draw_masks P L shapes =
     (case draw_class_masks P L shapes of Inl e \<Rightarrow> Inl e
      | Inr m \<Rightarrow> Inr (resolve_occlusion (nat (max_num_shapes L)) m))"

subsection \<open>One sample\<close>

fun class_args_loop :: "loader \<Rightarrow> shape list \<Rightarrow> error + int list" where
  "class_args_loop L [] = Inr []"
| "class_args_loop L (name # rest) =
     (case name_to_arg L (fst name) of None \<Rightarrow> Inl KeyError
      | Some arg \<Rightarrow>
         (case class_args_loop L rest of Inl e \<Rightarrow> Inl e
          | Inr args \<Rightarrow> Inr (int arg # args)))"

definition load_sample :: "primitives \<Rightarrow> loader \<Rightarrow> rng \<Rightarrow> error + (sample \<times> rng)" where
  "load_sample P L g =
     (let (H, W) = image_size L in
      case sample_shapes L (max_num_shapes L) H W 20 g of Inl e \<Rightarrow> Inl e
      | Inr (shapes, g1) \<Rightarrow>
         let boxes = compute_bounding_boxes shapes in
         (case filter_shapes boxes shapes (iou_thresh L) of Inl e \<Rightarrow> Inl e
          | Inr (shapes', boxes') \<Rightarrow>
             (case draw_shapes P L shapes' g1 of Inl e \<Rightarrow> Inl e
              | Inr (img, g2) \<Rightarrow>
                 (case draw_masks P L shapes' of Inl e \<Rightarrow> Inl e
                  | Inr m \<Rightarrow>
                     (case class_args_loop L shapes' of Inl e \<Rightarrow> Inl e
                      | Inr class_args \<Rightarrow>
                          Inr (\<lparr>image = img, masks = m,
                                box_data = map2 (\<lambda>box arg. box @ [arg]) boxes' class_args\<rparr>,
                               g2))))))"

subsection \<open>Notions used in the statements\<close>

text \<open>The channels of an \<open>n\<close>-channel mask array that hold a non-zero pixel.\<close>

definition channel_nonempty :: "image \<Rightarrow> nat \<Rightarrow> bool" where
  "channel_nonempty m i \<longleftrightarrow> (\<exists>row \<in> set m. \<exists>pixel \<in> set row. pixel ! i \<noteq> 0)"

definition nonempty_channels :: "nat \<Rightarrow> image \<Rightarrow> nat list" where
  "nonempty_channels n m = filter (channel_nonempty m) [0..<n]"

text \<open>What \<open>_sample_shapes\<close> can draw for one shape on an \<open>H \<times> W\<close> canvas: a
  non-background kind, three colour components of at most 254, a centre at least 20
  pixels from every border and a size between 20 and \<open>H // 4\<close>.\<close>

definition drawn_in_range :: "loader \<Rightarrow> int \<Rightarrow> int \<Rightarrow> shape \<Rightarrow> bool" where
  "drawn_in_range L H W s =
     (case s of (shape, col, (center_x, center_y, size')) \<Rightarrow>
        shape \<in> set (drop 1 (class_names L))
      \<and> length col = 3 \<and> list_all (\<lambda>c. c \<le> 254) col \<and> 255 \<notin> set col
      \<and> 20 \<le> center_x \<and> center_x \<le> W - 20 - 1
      \<and> 20 \<le> center_y \<and> center_y \<le> H - 20 - 1
      \<and> 20 \<le> size' \<and> size' \<le> H div 4)"

text \<open>Example rasterisations for concrete runs: a filled axis-aligned square, a filled
  disc and a filled upright triangle inside the bounding square.\<close>

definition filled_square :: raster where
  "filled_square center size' x y =
     (\<bar>x - fst center\<bar> \<le> size' \<and> \<bar>y - snd center\<bar> \<le> size')"

definition filled_disc :: raster where
  "filled_disc center size' x y =
     ((x - fst center) * (x - fst center) + (y - snd center) * (y - snd center) \<le> size' * size')"

definition filled_triangle :: raster where
  "filled_triangle center size' x y =
     (\<bar>y - snd center\<bar> \<le> size' \<and> 2 * \<bar>x - fst center\<bar> \<le> y - snd center + size')"

definition example_primitives :: primitives where
  "example_primitives =
     \<lparr>square_covers = filled_square, circle_covers = filled_disc,
      triangle_covers = filled_triangle\<rparr>"

subsection \<open>Auxiliary notions for the proofs\<close>

text \<open>The inner-loop body and the two loops at one pixel (the list of its channel
  values); the loops on the whole array act on every pixel in this way.\<close>

definition step_pixel :: "nat \<Rightarrow> nat \<Rightarrow> nat list \<Rightarrow> nat list" where
  "step_pixel i j p = p[i := (if (p ! i \<noteq> 0) \<noteq> (p ! i \<noteq> 0 \<and> p ! j \<noteq> 0) then 1 else 0)]"

definition resolve_pixel :: "nat \<Rightarrow> nat list \<Rightarrow> nat list" where
  "resolve_pixel n p = foldl (\<lambda>p i. foldl (\<lambda>p j. step_pixel i j p) p [i + 1..<n]) p [0..<n]"

text \<open>The rasterisation behind \<^verbatim>\<open>draw[shape]\<close>, and whether a shape descriptor
  covers pixel \<open>(x, y)\<close>.\<close>

definition raster_of :: "primitives \<Rightarrow> loader \<Rightarrow> string \<Rightarrow> raster option" where
  "raster_of P L shape =
     dict_zip (drop 1 (class_names L)) [square_covers P, circle_covers P, triangle_covers P] shape"

definition shape_covers :: "primitives \<Rightarrow> loader \<Rightarrow> shape \<Rightarrow> nat \<Rightarrow> nat \<Rightarrow> bool" where
  "shape_covers P L s x y =
     (case raster_of P L (fst s) of None \<Rightarrow> False
      | Some r \<Rightarrow> (case snd (snd s) of (center_x, center_y, size') \<Rightarrow>
                     r (center_x, center_y) size' (int x) (int y)))"

text \<open>Shape \<open>i\<close> of a list of shapes keeps a visible pixel on the \<open>H \<times> W\<close>
  canvas when it covers a pixel of the canvas that no shape later in the list (drawn
  after it) covers.\<close>

definition keeps_visible_pixel ::
  "primitives \<Rightarrow> loader \<Rightarrow> int \<Rightarrow> int \<Rightarrow> shape list \<Rightarrow> nat \<Rightarrow> bool" where
  "keeps_visible_pixel P L H W shapes i \<longleftrightarrow>
     (\<exists>y \<in> set [0..<nat H]. \<exists>x \<in> set [0..<nat W].
        shape_covers P L (shapes ! i) x y
      \<and> (\<forall>j \<in> set [i + 1..<length shapes]. \<not> shape_covers P L (shapes ! j) x y))"

text \<open>One iteration of the mask drawing loop applied to a mask, and the pixel of the
  concatenated mask array at \<open>(x, y)\<close> before the occlusion loops.\<close>

definition mask_stamp :: "primitives \<Rightarrow> loader \<Rightarrow> shape \<Rightarrow> image \<Rightarrow> image" where
  "mask_stamp P L s img =
     (case s of (shape, col, (center_x, center_y, size')) \<Rightarrow>
        stamp (the (raster_of P L shape)) img (center_x, center_y) [1, 1, 1] size')"

definition drawn_pixel :: "primitives \<Rightarrow> loader \<Rightarrow> shape list \<Rightarrow> nat \<Rightarrow> nat \<Rightarrow> nat list" where
  "drawn_pixel P L shapes x y =
     map (\<lambda>i. if i < length shapes \<and> shape_covers P L (shapes ! i) x y then 1 else 0)
       [0..<nat (max_num_shapes L)]"


text \<open>A concrete run with the default classes, threshold and capacity on a
  \<open>256 \<times> 256\<close> canvas.  The raw random values make \<open>_sample_shapes\<close> draw three
  squares centred at \<open>(128, 128)\<close> with sizes 20, 37 and 20.  The bounding boxes of the
  first two have intersection over union \<open>1600 / 5476 < 0.3\<close>, so both survive the
  filter, while the third coincides with the first.\<close>

definition example_loader :: loader where
  "example_loader = Shapes 1 (256, 256) None (3 / 10) 4"

definition example_rng :: rng where
  "example_rng =
     \<lparr>py_random = [2, 0, 108, 108, 0, 0, 108, 108, 17, 0, 108, 108, 0],
      np_random = [10, 20, 30, 40, 50, 60, 70, 80, 90, 200, 200, 200]\<rparr>"

definition example_shapes :: "shape list" where
  "example_shapes =
     [(''square'', [10, 20, 30], 128, 128, 20), (''square'', [40, 50, 60], 128, 128, 37),
      (''square'', [70, 80, 90], 128, 128, 20)]"

definition example_survivors :: "shape list" where
  "example_survivors =
     [(''square'', [10, 20, 30], 128, 128, 20), (''square'', [40, 50, 60], 128, 128, 37)]"

section \<open>Anchor generation: auxiliary facts\<close>

lemma unpack2_pair [simp]: "unpack2 [a, b] = Inr (a, b)"
  by (simp add: unpack2_def)

lemma unpack2_Inl: "unpack2 xs = Inl e \<longleftrightarrow> length xs \<noteq> 2 \<and> e = ValueError"
  by (auto simp: unpack2_def split: list.splits)

lemma arange_len:
  assumes "w \<noteq> 0" "0 < f"
  shows "nat \<lceil>(w - (w * inverse (real f)) / 2) / (w * inverse (real f))\<rceil> = f"
proof -
  have "(w - (w * inverse (real f)) / 2) / (w * inverse (real f)) = real f - 1 / 2"
    using assms by (simp add: field_simps)
  moreover have "\<lceil>real f - 1 / 2\<rceil> = int f"
    by (rule ceiling_unique) simp_all
  ultimately show ?thesis by simp
qed

lemma np_arange_stride:
  assumes "w \<noteq> 0" "0 < f"
  shows "np_arange ((w * inverse (real f)) / 2) w (w * inverse (real f))
         = Inr (map (\<lambda>i. (w * inverse (real f)) / 2 + real i * (w * inverse (real f))) [0..<f])"
  using assms by (simp add: np_arange_def arange_len)

lemma concat_map_map_upt:
  "concat (map (\<lambda>i. map (f i) [0..<m]) [0..<n]) = map (\<lambda>g. f (g div m) (g mod m)) [0..<n * m]"
proof (induction n)
  case 0
  show ?case by simp
next
  case (Suc n)
  have split: "[0..<Suc n * m] = [0..<n * m] @ [n * m..<n * m + m]"
    using upt_add_eq_append [of 0 "n * m" m] by (simp add: add.commute)
  have "map (\<lambda>g. f (g div m) (g mod m)) [n * m..<m + n * m]
          = map (\<lambda>j. f ((j + n * m) div m) ((j + n * m) mod m)) [0..<m]"
    by (simp only: map_add_upt [of "n * m" m, symmetric] map_map comp_def)
  also have "\<dots> = map (f n) [0..<m]"
    by (rule map_cong) auto
  finally have last: "map (\<lambda>g. f (g div m) (g mod m)) [n * m..<n * m + m] = map (f n) [0..<m]"
    by (simp only: add.commute)
  have "concat (map (\<lambda>i. map (f i) [0..<m]) [0..<Suc n])
        = concat (map (\<lambda>i. map (f i) [0..<m]) [0..<n]) @ map (f n) [0..<m]"
    by simp
  also have "\<dots> = map (\<lambda>g. f (g div m) (g mod m)) [0..<n * m] @ map (f n) [0..<m]"
    by (simp only: Suc.IH)
  also have "\<dots> = map (\<lambda>g. f (g div m) (g mod m)) [0..<Suc n * m]"
    by (simp only: split map_append last)
  finally show ?case .
qed

lemma mesh_x_flat:
  "concat (replicate n (map f [0..<m])) = map (\<lambda>g. f (g mod m)) [0..<n * m]"
proof -
  have "replicate n (map f [0..<m]) = map (\<lambda>i. map f [0..<m]) [0..<n]"
    by (simp add: map_replicate_const)
  then show ?thesis
    using concat_map_map_upt [of "\<lambda>i. f" m n] by simp
qed

lemma mesh_y_flat:
  "concat (map (\<lambda>i. replicate m (f i)) [0..<n]) = map (\<lambda>g. f (g div m)) [0..<n * m]"
proof -
  have "(\<lambda>i. replicate m (f i)) = (\<lambda>i. map (\<lambda>j. f i) [0..<m])"
    by (simp add: map_replicate_const)
  then show ?thesis
    using concat_map_map_upt [of "\<lambda>i j. f i" m n] by simp
qed

lemma build_octaves_upt:
  "build_octaves n ars = map (\<lambda>k. real (k div length ars) / real n) [0..<n * length ars]"
  using mesh_y_flat [of "length ars" "\<lambda>i. i" n]
  by (simp add: build_octaves_def np_repeat_def)

lemma build_aspect_upt:
  "build_aspect ars n = map (\<lambda>k. ars ! (k mod length ars)) [0..<n * length ars]"
  using mesh_x_flat [of n "\<lambda>j. ars ! j" "length ars"]
  by (simp add: build_aspect_def np_tile_def map_nth)

lemma zip_map_same: "zip (map f xs) (map g xs) = map (\<lambda>x. (f x, g x)) xs"
  by (induction xs) simp_all

lemma replicate_upt: "replicate n c = map (\<lambda>_. c) [0..<n]"
  by (simp add: map_replicate_const)

lemma compute_box_coordinates_valid:
  assumes "iH \<noteq> 0" "iW \<noteq> 0" "0 < fH" "0 < fW"
    and sy: "sy = real_of_int iH * inverse (real fH)"
    and sx: "sx = real_of_int iW * inverse (real fW)"
  shows "compute_box_coordinates [iH, iW] sy sx oc a sc
     = Inr (map (\<lambda>c. map (\<lambda>g. grid_box iH iW sy sx oc a sc (g div fW) (g mod fW) ! c)
                        [0..<fH * fW]) [0, 1, 2, 3])"
proof -
  have x: "np_arange (sx / 2) (real_of_int iW) sx = Inr (map (\<lambda>i. sx / 2 + real i * sx) [0..<fW])"
    unfolding sx using assms(2,4) by (intro np_arange_stride) simp_all
  have y: "np_arange (sy / 2) (real_of_int iH) sy = Inr (map (\<lambda>i. sy / 2 + real i * sy) [0..<fH])"
    unfolding sy using assms(1,3) by (intro np_arange_stride) simp_all
  show ?thesis
    by (simp add: compute_box_coordinates_def x y np_meshgrid_def mesh_x_flat mesh_y_flat
        grid_box_def Let_def comp_def)
qed


lemma length_grid_box [simp]: "length (grid_box iH iW sy sx oc a sc iy ix) = 4"
  by (simp add: grid_box_def Let_def)

lemma list4_nth: "length b = 4 \<Longrightarrow> [b ! 0, b ! Suc 0, b ! 2, b ! 3] = (b::'a list)"
  by (rule nth_equalityI) (auto simp: nth_Cons' numeral_eq_Suc less_Suc_eq)

lemma np_T_rows:
  assumes "\<And>g. length (F g) = 4"
  shows "np_T (map (\<lambda>c. map (\<lambda>g. F g ! c) [0..<G]) [0, 1, 2, 3]) = map F [0..<G]"
  using assms by (simp add: np_T_def list4_nth)

lemma branch_boxes_loop_valid:
  assumes "iH \<noteq> 0" "iW \<noteq> 0" "0 < fH" "0 < fW"
    and sy: "sy = real_of_int iH * inverse (real fH)"
    and sx: "sx = real_of_int iW * inverse (real fW)"
  shows "branch_boxes_loop [iH, iW] (map (\<lambda>k. (sy, sx, oc k, a k, sc)) ks)
     = Inr (map (\<lambda>k. map (\<lambda>g. [grid_box iH iW sy sx (oc k) (a k) sc (g div fW) (g mod fW)])
                         [0..<fH * fW]) ks)"
proof (induction ks)
  case Nil
  show ?case by simp
next
  case (Cons k ks)
  have "np_expand_dims1 (np_T (map (\<lambda>c. map (\<lambda>g. grid_box iH iW sy sx (oc k) (a k) sc
            (g div fW) (g mod fW) ! c) [0..<fH * fW]) [0, 1, 2, 3]))
        = map (\<lambda>g. [grid_box iH iW sy sx (oc k) (a k) sc (g div fW) (g mod fW)]) [0..<fH * fW]"
    by (subst np_T_rows) (simp_all add: np_expand_dims1_def)
  then show ?case
    using Cons.IH compute_box_coordinates_valid [OF assms, of "oc k" "a k" sc]
    by simp
qed

lemma np_concatenate1_levels:
  assumes "ks \<noteq> []"
  shows "np_concatenate1 (map (\<lambda>k. map (\<lambda>g. [B g k]) [0..<G]) ks)
     = Inr (map (\<lambda>g. map (\<lambda>k. B g k) ks) [0..<G])"
proof -
  obtain k ks' where ks: "ks = k # ks'"
    using assms by (cases ks) auto
  have "concat (map ((\<lambda>b. b ! g) \<circ> (\<lambda>k. map (\<lambda>g. [B g k]) [0..<G])) ks) = map (\<lambda>k. B g k) ks"
    if "g < G" for g
    using that by (induction ks) simp_all
  then have "map (\<lambda>g. concat (map (\<lambda>b. b ! g) (map (\<lambda>k. map (\<lambda>g. [B g k]) [0..<G]) ks))) [0..<G]
      = map (\<lambda>g. map (\<lambda>k. B g k) ks) [0..<G]"
    by (intro map_cong) simp_all
  then show ?thesis
    unfolding np_concatenate1_def ks by simp
qed

lemma build_branch_boxes_valid:
  assumes "iH \<noteq> 0" "iW \<noteq> 0" "0 < fH" "0 < fW" "0 < n" "ars \<noteq> []"
    and sy: "sy = real_of_int iH * inverse (real fH)"
    and sx: "sx = real_of_int iW * inverse (real fW)"
  shows "build_branch_boxes (replicate (n * length ars) sy) (replicate (n * length ars) sx)
           (build_octaves n ars) (build_aspect ars n) (build_scales sc (n * length ars)) [iH, iW]
     = Inr (map (\<lambda>g. map (\<lambda>k. grid_box iH iW sy sx (real (k div length ars) / real n)
                                 (ars ! (k mod length ars)) sc (g div fW) (g mod fW))
                       [0..<n * length ars]) [0..<fH * fW])"
proof -
  have ne: "[0..<n * length ars] \<noteq> []"
    using assms(5,6) by simp
  have cfg: "zip (replicate (n * length ars) sy) (zip (replicate (n * length ars) sx)
        (zip (build_octaves n ars) (zip (build_aspect ars n) (build_scales sc (n * length ars)))))
      = map (\<lambda>k. (sy, sx, real (k div length ars) / real n, ars ! (k mod length ars), sc))
          [0..<n * length ars]"
    by (simp only: replicate_upt build_octaves_upt build_aspect_upt build_scales_def zip_map_same)
  show ?thesis
    unfolding build_branch_boxes_def cfg
    by (simp only: branch_boxes_loop_valid [OF assms(1-4) sy sx] sum.case
        np_concatenate1_levels [OF ne])
qed


lemma feature_slice: "3 \<le> length b \<Longrightarrow> take 2 (drop (Suc 0) b) = [b ! Suc 0, b ! 2]"
  by (rule nth_equalityI) (auto simp: nth_Cons' less_Suc_eq numeral_2_eq_2)

lemma concat_concat: "concat (concat xss) = concat (map concat xss)"
  by (induction xss) simp_all

lemma build_strides_valid:
  assumes "3 \<le> length (branches ! i)"
  shows "build_strides i [iH, iW] branches K
     = Inr (replicate K (real_of_int iH * inverse (real (branches ! i ! 1))),
            replicate K (real_of_int iW * inverse (real (branches ! i ! 2))))"
  using assms by (simp add: build_strides_def feature_slice Let_def)

lemma variants_nested:
  "map (\<lambda>k. h (real (k div length ars) / real n) (ars ! (k mod length ars))) [0..<n * length ars]
   = concat (map (\<lambda>s. map (\<lambda>a. h (real s / real n) a) ars) [0..<n])"
proof -
  have "map (\<lambda>a. h (real s / real n) a) ars
        = map (\<lambda>j. h (real s / real n) (ars ! j)) [0..<length ars]" for s
    by (rule nth_equalityI) simp_all
  then show ?thesis
    using concat_map_map_upt [of "\<lambda>s j. h (real s / real n) (ars ! j)" "length ars" n]
    by simp
qed

lemma level_nested:
  "concat (map (\<lambda>g. map (\<lambda>k. grid_box iH iW (real_of_int iH * inverse (real (b ! 1)))
                (real_of_int iW * inverse (real (b ! 2))) (real (k div length ars) / real n)
                (ars ! (k mod length ars)) sc (g div (b ! 2)) (g mod (b ! 2)))
              [0..<n * length ars]) [0..<b ! 1 * b ! 2])
   = anchor_rows iH iW n ars sc b"
proof -
  let ?sy = "real_of_int iH * inverse (real (b ! 1))"
  let ?sx = "real_of_int iW * inverse (real (b ! 2))"
  let ?V = "\<lambda>iy ix. concat (map (\<lambda>s. map (\<lambda>a. grid_box iH iW ?sy ?sx (real s / real n) a sc iy ix)
                ars) [0..<n])"
  have "map (\<lambda>g. map (\<lambda>k. grid_box iH iW ?sy ?sx (real (k div length ars) / real n)
                (ars ! (k mod length ars)) sc (g div (b ! 2)) (g mod (b ! 2)))
              [0..<n * length ars]) [0..<b ! 1 * b ! 2]
        = map (\<lambda>g. ?V (g div (b ! 2)) (g mod (b ! 2))) [0..<b ! 1 * b ! 2]"
    by (simp only: variants_nested [of "\<lambda>oc a. grid_box iH iW ?sy ?sx oc a sc iy ix" for iy ix])
  also have "\<dots> = concat (map (\<lambda>iy. map (?V iy) [0..<b ! 2]) [0..<b ! 1])"
    by (simp only: concat_map_map_upt)
  finally show ?thesis
    by (simp only: anchor_rows_def concat_concat map_map comp_def)
qed

lemma anchors_loop_valid:
  assumes "iH \<noteq> 0" "iW \<noteq> 0" "0 < n" "ars \<noteq> []"
    and "\<And>i. i \<in> set is \<Longrightarrow> valid_branch (branches ! i)"
  shows "anchors_loop [iH, iW] branches n ars sc is
     = Inr (map (\<lambda>i. anchor_rows iH iW n ars sc (branches ! i)) is)"
  using assms(5)
proof (induction "is")
  case Nil
  show ?case by simp
next
  case (Cons i "is")
  have v: "3 \<le> length (branches ! i)" "0 < branches ! i ! 1" "0 < branches ! i ! 2"
    using Cons.prems [of i] by (simp_all add: valid_branch_def)
  have rest: "anchors_loop [iH, iW] branches n ars sc is
     = Inr (map (\<lambda>i. anchor_rows iH iW n ars sc (branches ! i)) is)"
    using Cons by simp
  show ?case
    by (simp add: build_strides_valid [OF v(1)] rest Let_def level_nested
        build_branch_boxes_valid [OF assms(1,2) v(2,3) assms(3,4) refl refl] del: One_nat_def)
qed

lemma build_anchors_valid:
  assumes "iH \<noteq> 0" "iW \<noteq> 0" "0 < n" "ars \<noteq> []" "branches \<noteq> []"
    and "\<And>b. b \<in> set branches \<Longrightarrow> valid_branch b"
  shows "build_anchors [iH, iW] branches n ars sc
     = Inr (to_center_form (concat (map (anchor_rows iH iW n ars sc) branches)))"
proof -
  have "anchors_loop [iH, iW] branches n ars sc [0..<length branches]
     = Inr (map (\<lambda>i. anchor_rows iH iW n ars sc (branches ! i)) [0..<length branches])"
    using assms(6) by (intro anchors_loop_valid assms(1-4)) simp
  also have "map (\<lambda>i. anchor_rows iH iW n ars sc (branches ! i)) [0..<length branches]
     = map (anchor_rows iH iW n ars sc) branches"
    by (rule nth_equalityI) simp_all
  finally show ?thesis
    using assms(5) by (simp add: build_anchors_def np_concatenate0_def)
qed


subsection \<open>Rounding to float32\<close>




lemma round_half_even_near:
  assumes "\<bar>t - of_int n\<bar> < 1 / 2"
  shows "round_half_even t = n"
proof -
  have "frac t \<noteq> 1 / 2"
  proof
    assume h: "frac t = 1 / 2"
    then have t: "t = of_int \<lfloor>t\<rfloor> + 1 / 2" by (simp add: frac_def)
    from assms have "\<bar>of_int (\<lfloor>t\<rfloor> - n) + (1 / 2 :: real)\<bar> < 1 / 2"
      by (subst (asm) t) (simp add: algebra_simps)
    then have "- 1 < real_of_int (\<lfloor>t\<rfloor> - n)" "real_of_int (\<lfloor>t\<rfloor> - n) < 0"
      by linarith+
    then have "- 1 < \<lfloor>t\<rfloor> - n" "\<lfloor>t\<rfloor> - n < 0"
      by linarith+
    then show False by simp
  qed
  then show ?thesis
    using round_unique' [OF assms] by (simp add: round_half_even_def)
qed

lemma exponent_search_ge: "e \<le> exponent_search a e n"
proof (induction n arbitrary: e)
  case 0
  show ?case by simp
next
  case (Suc n)
  from Suc [of "e + 1"] show ?case by simp
qed

lemma exponent_search_le: "exponent_search a e n \<le> e + int n"
proof (induction n arbitrary: e)
  case 0
  show ?case by simp
next
  case (Suc n)
  from Suc [of "e + 1"] show ?case by simp
qed

lemma exponent_search_upper:
  assumes "exponent_search a e n < e + int n"
  shows "a < 2 powi (exponent_search a e n + 1)"
  using assms
proof (induction n arbitrary: e)
  case 0
  then show ?case by simp
next
  case (Suc n)
  show ?case
  proof (cases "a < 2 powi (e + 1)")
    case True
    then show ?thesis by simp
  next
    case False
    with Suc.prems have "exponent_search a (e + 1) n < (e + 1) + int n" by simp
    from Suc.IH [OF this] False show ?thesis by simp
  qed
qed

lemma exponent_search_lower:
  assumes "e < exponent_search a e n"
  shows "2 powi (exponent_search a e n) \<le> a"
  using assms
proof (induction n arbitrary: e)
  case 0
  then show ?case by simp
next
  case (Suc n)
  show ?case
  proof (cases "a < 2 powi (e + 1)")
    case True
    with Suc.prems show ?thesis by simp
  next
    case False
    show ?thesis
    proof (cases "e + 1 < exponent_search a (e + 1) n")
      case True
      from Suc.IH [OF this] False show ?thesis by simp
    next
      case nl: False
      with exponent_search_ge [of "e + 1" a n] have "exponent_search a (e + 1) n = e + 1"
        by simp
      with False show ?thesis by simp
    qed
  qed
qed


lemma float32_exponent_bounds: "- 126 \<le> float32_exponent x" "float32_exponent x \<le> 127"
  using exponent_search_ge [of "- 126" "\<bar>x\<bar>" 253] exponent_search_le [of "\<bar>x\<bar>" "- 126" 253]
  by (simp_all add: float32_exponent_def)

lemma float32_exponent_upper:
  assumes "float32_exponent x < 127"
  shows "\<bar>x\<bar> < 2 powi (float32_exponent x + 1)"
  using exponent_search_upper [of "\<bar>x\<bar>" "- 126" 253] assms
  by (simp add: float32_exponent_def)

lemma float32_exponent_lower:
  assumes "- 126 < float32_exponent x"
  shows "2 powi (float32_exponent x) \<le> \<bar>x\<bar>"
  using exponent_search_lower [of "- 126" "\<bar>x\<bar>" 253] assms
  by (simp add: float32_exponent_def)


lemma float32_exponent_eq:
  assumes "- 126 \<le> e" "e \<le> 127" "e = - 126 \<or> 2 powi e \<le> \<bar>x\<bar>" "\<bar>x\<bar> < 2 powi (e + 1)"
  shows "float32_exponent x = e"
proof (rule ccontr)
  assume ne: "float32_exponent x \<noteq> e"
  let ?r = "float32_exponent x"
  show False
  proof (cases "?r < e")
    case True
    with assms(2) have "?r < 127" by simp
    from float32_exponent_upper [OF this] have u: "\<bar>x\<bar> < 2 powi (?r + 1)" .
    have "(2::real) powi (?r + 1) \<le> 2 powi e"
      using True by (intro power_int_increasing) simp_all
    with u have "\<bar>x\<bar> < 2 powi e" by simp
    moreover from True float32_exponent_bounds(1) [of x] have "e \<noteq> - 126" by simp
    ultimately show False using assms(3) by simp
  next
    case False
    with ne have gt: "e < ?r" by simp
    with assms(1) have "- 126 < ?r" by simp
    from float32_exponent_lower [OF this] have l: "2 powi ?r \<le> \<bar>x\<bar>" .
    have "(2::real) powi (e + 1) \<le> 2 powi ?r"
      using gt by (intro power_int_increasing) simp_all
    with l assms(4) show False by simp
  qed
qed

lemma float32_near:
  assumes "- 126 \<le> e" "e \<le> 127" "e = - 126 \<or> 2 powi e \<le> \<bar>x\<bar>" "\<bar>x\<bar> < 2 powi (e + 1)"
    and "\<bar>x / 2 powi (e - 23) - of_int n\<bar> < 1 / 2"
  shows "float32 x = 2 powi (e - 23) * of_int n"
  using float32_exponent_eq [OF assms(1-4)] round_half_even_near [OF assms(5)]
  by (simp add: float32_def Let_def)

lemma float32_0 [simp]: "float32 0 = 0"
  using float32_near [of "- 126" 0 0] by simp















section \<open>Anchor generation: the claims\<close>

lemma length_anchor_rows:
  "length (anchor_rows iH iW n ars sc b) = b ! 1 * b ! 2 * n * length ars"
proof -
  have "length (concat (map (\<lambda>g. map (F g) [0..<n * length ars]) [0..<b ! 1 * b ! 2]))
        = b ! 1 * b ! 2 * n * length ars" for F :: "nat \<Rightarrow> nat \<Rightarrow> real list"
    by (simp add: length_concat comp_def sum_list_triv)
  then show ?thesis
    by (simp only: level_nested [symmetric])
qed

lemma length_concat_anchor_rows:
  "length (concat (map (anchor_rows iH iW n ars sc) branches))
   = (\<Sum>b\<leftarrow>branches. b ! 1 * b ! 2 * n * length ars)"
  by (simp add: length_concat comp_def length_anchor_rows del: One_nat_def)

text \<open>
  Claim C1.  For a two-element \<open>image_shape\<close> with non-zero entries, a non-empty list
  of branches whose shapes have positive feature dimensions at indices 1 and 2, at least
  one scale and a non-empty list of aspect ratios, \<open>build_anchors\<close> returns an array,
  and its number of rows is the sum over the branches of
  \<open>feature_H * feature_W * num_scales * len(aspect_ratios)\<close>.  For
  \<open>image_shape = (128, 128)\<close>, one branch of shape \<open>(1, 16, 16, 64)\<close>, three
  scales, aspect ratios \<open>[1.0, 2.0, 0.5]\<close> and scale \<open>4.0\<close> it returns 2304 rows.
\<close>

theorem build_anchors_count:
  assumes "image_shape = [image_H, image_W]" "image_H \<noteq> 0" "image_W \<noteq> 0"
    and "branches \<noteq> []" "\<forall>b \<in> set branches. valid_branch b"
    and "1 \<le> num_scales" "aspect_ratios \<noteq> []"
  shows "(\<exists>anchors. build_anchors image_shape branches num_scales aspect_ratios scale = Inr anchors
           \<and> length anchors
               = (\<Sum>b\<leftarrow>branches. b ! 1 * b ! 2 * num_scales * length aspect_ratios))
       \<and> (\<exists>anchors. build_anchors [128, 128] [[1, 16, 16, 64]] 3 [1, 2, 1 / 2] 4 = Inr anchors
           \<and> length anchors = 2304)"
proof -
  have general: "\<exists>anchors. build_anchors [iH, iW] bs n ars sc = Inr anchors
           \<and> length anchors = (\<Sum>b\<leftarrow>bs. b ! 1 * b ! 2 * n * length ars)"
    if "iH \<noteq> 0" "iW \<noteq> 0" "bs \<noteq> []" "\<forall>b \<in> set bs. valid_branch b" "1 \<le> n" "ars \<noteq> []"
    for iH iW bs n ars sc
  proof -
    have "build_anchors [iH, iW] bs n ars sc
          = Inr (to_center_form (concat (map (anchor_rows iH iW n ars sc) bs)))"
      using that by (intro build_anchors_valid) simp_all
    then show ?thesis
      by (simp add: to_center_form_def length_concat_anchor_rows)
  qed
  have "\<exists>anchors. build_anchors [128, 128] [[1, 16, 16, 64]] 3 [1, 2, 1 / 2] 4 = Inr anchors
           \<and> length anchors = (\<Sum>b\<leftarrow>[[1, 16, 16, 64]]. b ! 1 * b ! 2 * 3 * length [1::real, 2, 1 / 2])"
    by (rule general) (simp_all add: valid_branch_def)
  then show ?thesis
    using general [of image_H image_W branches num_scales aspect_ratios scale] assms by simp
qed

theorem build_anchors_count_witness:
  "\<exists>anchors. build_anchors [128, 256] [[1, 16, 32, 64], [1, 8, 16, 64]] 3 [1, 2, 1 / 2] 4 = Inr anchors
     \<and> length anchors = 5760"
  using build_anchors_count [of "[128, 256]" 128 256 "[[1, 16, 32, 64], [1, 8, 16, 64]]" 3 "[1, 2, 1 / 2]" 4]
  by (simp add: valid_branch_def)

lemma nth_build_octaves:
  assumes "k < n * length ars"
  shows "build_octaves n ars ! k = real (k div length ars) / real n"
  using assms by (simp add: build_octaves_upt)

lemma nth_build_aspect:
  assumes "k < n * length ars"
  shows "build_aspect ars n ! k = ars ! (k mod length ars)"
  using assms by (simp add: build_aspect_upt)

text \<open>
  Claim C4.  The rows returned by \<open>build_anchors\<close> are, before the conversion to
  center form, the concatenation over the branches (outermost) of the grid rows, the grid
  columns (row-major meshgrid order) and, innermost, the box-shape variants, scale index
  before aspect ratio: this is \<open>anchor_rows\<close>.  Within a level the octave at position
  \<open>k\<close> is \<open>(k div len(aspect_ratios)) / num_scales\<close> and the aspect ratio at position
  \<open>k\<close> is \<open>aspect_ratios[k mod len(aspect_ratios)]\<close>, so the aspect ratio varies
  fastest.
\<close>

theorem build_anchors_order:
  assumes "image_shape = [image_H, image_W]" "image_H \<noteq> 0" "image_W \<noteq> 0"
    and "branches \<noteq> []" "\<forall>b \<in> set branches. valid_branch b"
    and "1 \<le> num_scales" "aspect_ratios \<noteq> []"
  shows "build_anchors image_shape branches num_scales aspect_ratios scale
           = Inr (to_center_form
               (concat (map (anchor_rows image_H image_W num_scales aspect_ratios scale) branches)))
       \<and> length (build_octaves num_scales aspect_ratios) = num_scales * length aspect_ratios
       \<and> length (build_aspect aspect_ratios num_scales) = num_scales * length aspect_ratios
       \<and> (\<forall>k < num_scales * length aspect_ratios.
             build_octaves num_scales aspect_ratios ! k
               = real (k div length aspect_ratios) / real num_scales
           \<and> build_aspect aspect_ratios num_scales ! k
               = aspect_ratios ! (k mod length aspect_ratios))"
proof -
  have "build_anchors [image_H, image_W] branches num_scales aspect_ratios scale
           = Inr (to_center_form
               (concat (map (anchor_rows image_H image_W num_scales aspect_ratios scale) branches)))"
    using assms by (intro build_anchors_valid) simp_all
  moreover have "length (build_octaves num_scales aspect_ratios) = num_scales * length aspect_ratios"
    by (simp add: build_octaves_upt)
  moreover have "length (build_aspect aspect_ratios num_scales) = num_scales * length aspect_ratios"
    by (simp add: build_aspect_upt)
  ultimately show ?thesis
    using assms(1) nth_build_octaves nth_build_aspect by blast
qed

theorem build_anchors_order_witness:
  "build_anchors [64, 128] [[1, 1, 2, 8]] 2 [1, 4] 4
     = Inr [[1 / 4, 1 / 2, 2, 4], [1 / 4, 1 / 2, 4, 2],
            [1 / 4, 1 / 2, 2 * sqrt 2, 4 * sqrt 2], [1 / 4, 1 / 2, 4 * sqrt 2, 2 * sqrt 2],
            [3 / 4, 1 / 2, 2, 4], [3 / 4, 1 / 2, 4, 2],
            [3 / 4, 1 / 2, 2 * sqrt 2, 4 * sqrt 2], [3 / 4, 1 / 2, 4 * sqrt 2, 2 * sqrt 2]]
   \<and> build_octaves 2 [1, 4] = [0, 0, 1 / 2, 1 / 2]
   \<and> build_aspect [1, 4] 2 = [1, 4, 1, 4]"
proof -
  have sq: "sqrt 4 = 2"
    using real_sqrt_abs [of 2] by simp
  have pw: "2 powr (1 / 2) = sqrt 2"
    by (simp add: powr_half_sqrt)
  have u2: "[0..<2] = [0, 1]"
    by (simp add: numeral_2_eq_2)
  have "build_anchors [64, 128] [[1, 1, 2, 8]] 2 [1, 4] 4
     = Inr [[1 / 4, 1 / 2, 2, 4], [1 / 4, 1 / 2, 4, 2],
            [1 / 4, 1 / 2, 2 * sqrt 2, 4 * sqrt 2], [1 / 4, 1 / 2, 4 * sqrt 2, 2 * sqrt 2],
            [3 / 4, 1 / 2, 2, 4], [3 / 4, 1 / 2, 4, 2],
            [3 / 4, 1 / 2, 2 * sqrt 2, 4 * sqrt 2], [3 / 4, 1 / 2, 4 * sqrt 2, 2 * sqrt 2]]"
    using build_anchors_order [of "[64, 128]" 64 128 "[[1, 1, 2, 8]]" 2 "[1, 4]" 4]
    by (simp add: valid_branch_def anchor_rows_def grid_box_def to_center_form_def Let_def sq pw
        u2 field_simps)
  moreover have "build_octaves 2 [1, 4] = [0, 0, 1 / 2, 1 / 2]"
    by (simp add: build_octaves_def np_repeat_def u2 numeral_2_eq_2)
  moreover have "build_aspect [1, 4] 2 = [1, 4, 1, 4]"
    by (simp add: build_aspect_def np_tile_def numeral_2_eq_2)
  ultimately show ?thesis by simp
qed















lemma np_T_four:
  assumes "length a = 4" "r \<in> set (np_T a)"
  shows "length r = 4"
  using assms by (auto simp: np_T_def split: list.splits)

lemma compute_box_coordinates_four:
  assumes "compute_box_coordinates s sy sx oc a sc = Inr boxes"
  shows "length boxes = 4"
  using assms
  by (auto simp: compute_box_coordinates_def Let_def split: sum.splits prod.splits)

lemma branch_boxes_loop_four:
  assumes "branch_boxes_loop s cfgs = Inr bb" "arr \<in> set bb" "x \<in> set arr" "r \<in> set x"
  shows "length r = 4"
  using assms
proof (induction s cfgs arbitrary: bb rule: branch_boxes_loop.induct)
  case (1 s)
  then show ?case by simp
next
  case (2 s sy sx oc a sc cfgs)
  from "2.prems"(1) obtain boxes rest where
    boxes: "compute_box_coordinates s sy sx oc a sc = Inr boxes"
    and rest: "branch_boxes_loop s cfgs = Inr rest"
    and bb: "bb = np_expand_dims1 (np_T boxes) # rest"
    by (auto split: sum.splits)
  show ?case
  proof (cases "arr = np_expand_dims1 (np_T boxes)")
    case True
    with "2.prems"(3,4) have "r \<in> set (np_T boxes)"
      by (auto simp: np_expand_dims1_def)
    with compute_box_coordinates_four [OF boxes] show ?thesis
      by (rule np_T_four)
  next
    case False
    with "2.prems"(2) bb have "arr \<in> set rest" by simp
    with "2.IH" [OF boxes rest] "2.prems"(3,4) show ?thesis by blast
  qed
qed

lemma np_concatenate1_four:
  assumes "np_concatenate1 bb = Inr res"
    and "\<And>arr x r. arr \<in> set bb \<Longrightarrow> x \<in> set arr \<Longrightarrow> r \<in> set x \<Longrightarrow> length r = 4"
    and "x \<in> set res" "r \<in> set x"
  shows "length r = 4"
proof -
  from assms(1) obtain a rest where bb: "bb = a # rest"
    and len: "\<forall>b \<in> set bb. length b = length a"
    and res: "res = map (\<lambda>g. concat (map (\<lambda>b. b ! g) bb)) [0..<length a]"
    by (auto simp: np_concatenate1_def split: list.splits if_splits)
  from assms(3) res obtain g where g: "g < length a" and x: "x = concat (map (\<lambda>b. b ! g) bb)"
    by auto
  from assms(4) x obtain b where b: "b \<in> set bb" and r: "r \<in> set (b ! g)"
    by auto
  from len b g have "b ! g \<in> set b" by simp
  with assms(2) b r show ?thesis by blast
qed

lemma build_branch_boxes_four:
  assumes "build_branch_boxes sy sx oc a scs s = Inr res" "x \<in> set res" "r \<in> set x"
  shows "length r = 4"
proof -
  from assms(1) obtain bb where
    loop: "branch_boxes_loop s (zip sy (zip sx (zip oc (zip a scs)))) = Inr bb"
    and cat: "np_concatenate1 bb = Inr res"
    by (auto simp: build_branch_boxes_def split: sum.splits)
  show ?thesis
    using cat branch_boxes_loop_four [OF loop] assms(2,3) by (rule np_concatenate1_four)
qed

lemma anchors_loop_four:
  assumes "anchors_loop s branches n ars sc is = Inr ab" "rows \<in> set ab" "r \<in> set rows"
  shows "length r = 4"
  using assms
proof (induction "is" arbitrary: ab)
  case Nil
  then show ?case by simp
next
  case (Cons i "is")
  from Cons.prems(1) obtain sy sx bbx rest where
    bbx: "build_branch_boxes sy sx (build_octaves n ars) (build_aspect ars n)
            (build_scales sc (n * length ars)) s = Inr bbx"
    and rest: "anchors_loop s branches n ars sc is = Inr rest"
    and ab: "ab = concat bbx # rest"
    by (auto simp: Let_def split: sum.splits prod.splits)
  show ?case
  proof (cases "rows = concat bbx")
    case True
    with Cons.prems(3) obtain x where "x \<in> set bbx" "r \<in> set x" by auto
    with bbx show ?thesis by (rule build_branch_boxes_four)
  next
    case False
    with Cons.prems(2) ab have "rows \<in> set rest" by simp
    with Cons.IH [OF rest] Cons.prems(3) show ?thesis by blast
  qed
qed

lemma corner_center_corner:
  assumes "\<And>r. r \<in> set boxes \<Longrightarrow> length r = 4"
  shows "to_corner_form (to_center_form boxes) = boxes"
proof -
  have "[(r ! 0 + r ! 2) / 2 - (r ! 2 - r ! 0) / 2, (r ! 1 + r ! 3) / 2 - (r ! 3 - r ! 1) / 2,
         (r ! 0 + r ! 2) / 2 + (r ! 2 - r ! 0) / 2, (r ! 1 + r ! 3) / 2 + (r ! 3 - r ! 1) / 2] = r"
    if "length r = 4" for r :: "real list"
    using list4_nth [OF that] by (simp add: field_simps)
  then have "map (\<lambda>r. [(r ! 0 + r ! 2) / 2 - (r ! 2 - r ! 0) / 2, (r ! 1 + r ! 3) / 2 - (r ! 3 - r ! 1) / 2,
         (r ! 0 + r ! 2) / 2 + (r ! 2 - r ! 0) / 2, (r ! 1 + r ! 3) / 2 + (r ! 3 - r ! 1) / 2]) boxes
       = map (\<lambda>r. r) boxes"
    using assms by (intro map_cong) simp_all
  then show ?thesis
    by (simp add: to_corner_form_def to_center_form_def comp_def)
qed

text \<open>
  Claim C8.  Whenever \<open>build_anchors\<close> returns an array, it is the center form of the
  concatenated corner-form boxes, and converting it back to corner form gives these
  corner-form boxes again (exactly, over exact arithmetic).  Both conversions are the
  models taken from the specification.
\<close>

theorem build_anchors_round_trip:
  assumes "build_anchors image_shape branches num_scales aspect_ratios scale = Inr anchors"
  shows "\<exists>anchor_boxes corners.
           anchors_loop image_shape branches num_scales aspect_ratios scale [0..<length branches]
             = Inr anchor_boxes
         \<and> np_concatenate0 anchor_boxes = Inr corners
         \<and> anchors = to_center_form corners
         \<and> to_corner_form (to_center_form corners) = corners"
proof -
  from assms obtain anchor_boxes corners where
    loop: "anchors_loop image_shape branches num_scales aspect_ratios scale [0..<length branches]
             = Inr anchor_boxes"
    and cat: "np_concatenate0 anchor_boxes = Inr corners"
    and anchors: "anchors = to_center_form corners"
    by (auto simp: build_anchors_def split: sum.splits)
  from cat have "corners = concat anchor_boxes"
    by (simp add: np_concatenate0_def split: if_splits)
  then have "length r = 4" if "r \<in> set corners" for r
    using that anchors_loop_four [OF loop] by auto
  then have "to_corner_form (to_center_form corners) = corners"
    by (rule corner_center_corner)
  with loop cat anchors show ?thesis by blast
qed

lemma grid_index_bound: "iy < n \<Longrightarrow> ix < m \<Longrightarrow> iy * m + ix < n * (m::nat)"
proof -
  assume "iy < n" "ix < m"
  then have "iy * m + ix < Suc iy * m" by simp
  also have "\<dots> \<le> n * m" using \<open>iy < n\<close> by (intro mult_le_mono1) simp
  finally show ?thesis .
qed

lemma nth_concat_replicate:
  assumes "iy < n" "ix < length xs"
  shows "concat (replicate n xs) ! (iy * length xs + ix) = xs ! ix"
proof -
  have "concat (replicate n xs) = map (\<lambda>g. xs ! (g mod length xs)) [0..<n * length xs]"
    using mesh_x_flat [of n "\<lambda>j. xs ! j" "length xs"] by (simp add: map_nth)
  then show ?thesis
    using assms grid_index_bound [OF assms] by simp
qed

lemma nth_concat_map_replicate:
  assumes "iy < length ys" "ix < m"
  shows "concat (map (replicate m) ys) ! (iy * m + ix) = ys ! iy"
proof -
  have "map (replicate m) ys = map (\<lambda>i. replicate m (ys ! i)) [0..<length ys]"
    by (rule nth_equalityI) simp_all
  then have "concat (map (replicate m) ys) = map (\<lambda>g. ys ! (g div m)) [0..<length ys * m]"
    using mesh_y_flat [of m "\<lambda>i. ys ! i" "length ys"] by simp
  then show ?thesis
    using assms grid_index_bound [OF assms] by simp
qed

lemma length_concat_replicate: "length (concat (replicate n xs)) = n * length xs"
  by (simp add: length_concat sum_list_replicate)

lemma length_concat_map_replicate: "length (concat (map (replicate m) ys)) = length ys * m"
  by (simp add: length_concat comp_def sum_list_triv)

text \<open>
  Claim C3, as amended.  With \<open>image_shape = (image_H, image_W)\<close> and non-zero strides,
  the x-centers are \<open>arange(stride_x / 2, image_W, stride_x)\<close> divided by \<open>image_W\<close> and
  the y-centers are \<open>arange(stride_y / 2, image_H, stride_y)\<close> divided by \<open>image_H\<close>; the
  half-width \<open>scale * stride_x * 2^octave * sqrt(aspect) / 2\<close> is divided by \<open>image_W\<close>
  and the half-height \<open>scale * stride_y * 2^octave * (1 / sqrt(aspect)) / 2\<close> by
  \<open>image_H\<close>: every axis is normalised by its own image dimension.  The grid is flattened
  row-major, position \<open>iy * len(x) + ix\<close> holding x-center \<open>ix\<close> and y-center \<open>iy\<close>.
\<close>

theorem compute_box_coordinates_normalization:
  assumes "stride_x \<noteq> 0" "stride_y \<noteq> 0"
  shows "\<exists>xs ys rows.
      np_arange (stride_x / 2) (real_of_int image_W) stride_x = Inr xs
    \<and> np_arange (stride_y / 2) (real_of_int image_H) stride_y = Inr ys
    \<and> compute_box_coordinates [image_H, image_W] stride_y stride_x octave aspect scale = Inr rows
    \<and> length rows = 4
    \<and> (\<forall>row \<in> set rows. length row = length ys * length xs)
    \<and> (\<forall>iy < length ys. \<forall>ix < length xs.
          rows ! 0 ! (iy * length xs + ix)
            = xs ! ix / real_of_int image_W
              - (scale * stride_x * (2 powr octave) * sqrt aspect / 2) / real_of_int image_W
        \<and> rows ! 1 ! (iy * length xs + ix)
            = ys ! iy / real_of_int image_H
              - (scale * stride_y * (2 powr octave) * (1 / sqrt aspect) / 2) / real_of_int image_H
        \<and> rows ! 2 ! (iy * length xs + ix)
            = xs ! ix / real_of_int image_W
              + (scale * stride_x * (2 powr octave) * sqrt aspect / 2) / real_of_int image_W
        \<and> rows ! 3 ! (iy * length xs + ix)
            = ys ! iy / real_of_int image_H
              + (scale * stride_y * (2 powr octave) * (1 / sqrt aspect) / 2) / real_of_int image_H)"
proof -
  obtain xs where xs: "np_arange (stride_x / 2) (real_of_int image_W) stride_x = Inr xs"
    using assms(1) by (simp add: np_arange_def)
  obtain ys where ys: "np_arange (stride_y / 2) (real_of_int image_H) stride_y = Inr ys"
    using assms(2) by (simp add: np_arange_def)
  let ?aw = "(scale * stride_x * (2 powr octave) * sqrt aspect / 2) / real_of_int image_W"
  let ?ah = "(scale * stride_y * (2 powr octave) * (1 / sqrt aspect) / 2) / real_of_int image_H"
  let ?cx = "map (\<lambda>v. v / real_of_int image_W) (concat (replicate (length ys) xs))"
  let ?cy = "map (\<lambda>v. v / real_of_int image_H) (concat (map (replicate (length xs)) ys))"
  define rows where "rows = [map (\<lambda>c. c - ?aw) ?cx, map (\<lambda>c. c - ?ah) ?cy,
                map (\<lambda>c. c + ?aw) ?cx, map (\<lambda>c. c + ?ah) ?cy]"
  have run: "compute_box_coordinates [image_H, image_W] stride_y stride_x octave aspect scale
             = Inr rows"
    by (simp add: compute_box_coordinates_def xs ys np_meshgrid_def Let_def rows_def)
  have four: "length rows = 4"
    by (simp add: rows_def)
  have len: "\<forall>row \<in> set rows. length row = length ys * length xs"
    by (simp add: rows_def length_concat_replicate length_concat_map_replicate)
  have el: "rows ! 0 ! (iy * length xs + ix) = xs ! ix / real_of_int image_W - ?aw
          \<and> rows ! 1 ! (iy * length xs + ix) = ys ! iy / real_of_int image_H - ?ah
          \<and> rows ! 2 ! (iy * length xs + ix) = xs ! ix / real_of_int image_W + ?aw
          \<and> rows ! 3 ! (iy * length xs + ix) = ys ! iy / real_of_int image_H + ?ah"
    if "iy < length ys" "ix < length xs" for iy ix
  proof -
    have b: "iy * length xs + ix < length ys * length xs"
      using that by (rule grid_index_bound)
    have x: "?cx ! (iy * length xs + ix) = xs ! ix / real_of_int image_W"
      using b that by (simp add: length_concat_replicate nth_concat_replicate)
    have y: "?cy ! (iy * length xs + ix) = ys ! iy / real_of_int image_H"
      using b that by (simp add: length_concat_map_replicate nth_concat_map_replicate)
    have lx: "iy * length xs + ix < length ?cx"
      using b by (simp add: length_concat_replicate)
    have ly: "iy * length xs + ix < length ?cy"
      using b by (simp add: length_concat_map_replicate)
    have r0: "rows ! 0 = map (\<lambda>c. c - ?aw) ?cx" and r1: "rows ! 1 = map (\<lambda>c. c - ?ah) ?cy"
      and r2: "rows ! 2 = map (\<lambda>c. c + ?aw) ?cx" and r3: "rows ! 3 = map (\<lambda>c. c + ?ah) ?cy"
      by (simp_all add: rows_def numeral_3_eq_3 numeral_2_eq_2)
    show ?thesis
      unfolding r0 r1 r2 r3 using x y lx ly by (simp only: nth_map)
  qed
  from xs ys run four len el show ?thesis
    by blast
qed

lemma arange_32_128: "np_arange (64 / 2) 128 64 = Inr [32, 96]"
proof -
  have "\<lceil>(128 - 64 / 2) / (64::real)\<rceil> = 2"
    by (rule ceiling_unique) simp_all
  then show ?thesis
    by (simp add: np_arange_def numeral_2_eq_2)
qed

lemma arange_32_64: "np_arange (64 / 2) 64 64 = Inr [32]"
proof -
  have "\<lceil>(64 - 64 / 2) / (64::real)\<rceil> = 1"
    by (rule ceiling_unique) simp_all
  then show ?thesis
    by (simp add: np_arange_def)
qed

text \<open>
  Claim C3 as stated fails for a non-square image.  For \<open>image_shape = (64, 128)\<close> and a
  branch with a \<open>1 \<times> 2\<close> feature map both strides are 64; the source yields two grid
  points along x and half-width 1 (divided by 128), where the claimed cross-axis
  normalisation gives two grid points along y and half-width 2 (divided by 64).
\<close>

theorem compute_box_coordinates_cross_axis_counterexample:
  "build_strides 0 [64, 128] [[1, 1, 2, 8]] 1 = Inr ([64], [64])
   \<and> compute_box_coordinates [64, 128] 64 64 0 1 4
       = Inr [[- 3 / 4, - 1 / 4], [- 3 / 2, - 3 / 2], [5 / 4, 7 / 4], [5 / 2, 5 / 2]]
   \<and> claimed_box_coordinates 64 128 64 64 0 1 4
       = Inr [[- 3 / 2, - 3 / 2], [- 3 / 4, - 1 / 4], [5 / 2, 5 / 2], [5 / 4, 7 / 4]]
   \<and> compute_box_coordinates [64, 128] 64 64 0 1 4 \<noteq> claimed_box_coordinates 64 128 64 64 0 1 4"
proof -
  have s: "build_strides 0 [64, 128] [[1, 1, 2, 8]] 1 = Inr ([64], [64])"
    by (simp add: build_strides_def unpack2_def Let_def)
  have c: "compute_box_coordinates [64, 128] 64 64 0 1 4
       = Inr [[- 3 / 4, - 1 / 4], [- 3 / 2, - 3 / 2], [5 / 4, 7 / 4], [5 / 2, 5 / 2]]"
    using arange_32_128 arange_32_64
    by (simp add: compute_box_coordinates_def np_meshgrid_def Let_def)
  have d: "claimed_box_coordinates 64 128 64 64 0 1 4
       = Inr [[- 3 / 2, - 3 / 2], [- 3 / 4, - 1 / 4], [5 / 2, 5 / 2], [5 / 4, 7 / 4]]"
    using arange_32_128 arange_32_64
    by (simp add: claimed_box_coordinates_def np_meshgrid_def Let_def)
  show ?thesis
    unfolding c d using s by simp
qed

theorem compute_box_coordinates_normalization_witness:
  "\<exists>xs ys rows.
      np_arange (64 / 2) (real_of_int 128) 64 = Inr xs
    \<and> np_arange (64 / 2) (real_of_int 64) 64 = Inr ys
    \<and> compute_box_coordinates [64, 128] 64 64 0 1 4 = Inr rows
    \<and> length rows = 4
    \<and> list_all (\<lambda>row. length row = length ys * length xs) rows
    \<and> xs = [32, 96] \<and> ys = [32]
    \<and> rows ! 0 ! 1 = 96 / 128 - 1 \<and> rows ! 1 ! 1 = 32 / 64 - 2
    \<and> rows ! 2 ! 1 = 96 / 128 + 1 \<and> rows ! 3 ! 1 = 32 / 64 + 2"
proof -
  from compute_box_coordinates_normalization [of 64 64 128 64 0 1 4]
  obtain xs ys rows where
    xs: "np_arange (64 / 2) (real_of_int 128) 64 = Inr xs"
    and ys: "np_arange (64 / 2) (real_of_int 64) 64 = Inr ys"
    and run: "compute_box_coordinates [64, 128] 64 64 0 1 4 = Inr rows"
    and four: "length rows = 4"
    and len: "\<forall>row \<in> set rows. length row = length ys * length xs"
    and el: "\<forall>iy < length ys. \<forall>ix < length xs.
          rows ! 0 ! (iy * length xs + ix)
            = xs ! ix / real_of_int 128 - (4 * 64 * (2 powr 0) * sqrt 1 / 2) / real_of_int 128
        \<and> rows ! 1 ! (iy * length xs + ix)
            = ys ! iy / real_of_int 64 - (4 * 64 * (2 powr 0) * (1 / sqrt 1) / 2) / real_of_int 64
        \<and> rows ! 2 ! (iy * length xs + ix)
            = xs ! ix / real_of_int 128 + (4 * 64 * (2 powr 0) * sqrt 1 / 2) / real_of_int 128
        \<and> rows ! 3 ! (iy * length xs + ix)
            = ys ! iy / real_of_int 64 + (4 * 64 * (2 powr 0) * (1 / sqrt 1) / 2) / real_of_int 64"
    by auto
  have x: "xs = [32, 96]" using xs arange_32_128 by simp
  have y: "ys = [32]" using ys arange_32_64 by simp
  from el [rule_format, of 0 1] x y
  have "rows ! 0 ! 1 = 96 / 128 - 1 \<and> rows ! 1 ! 1 = 32 / 64 - 2
    \<and> rows ! 2 ! 1 = 96 / 128 + 1 \<and> rows ! 3 ! 1 = 32 / 64 + 2"
    by simp
  with xs ys run four len x y show ?thesis
    by (auto simp: list_all_iff)
qed

text \<open>
  Claim C6 as stated fails: the error raised for empty branches is the built-in
  ValueError (from \<open>np.concatenate\<close> of an empty list), not an InvalidConfiguration
  error, and likewise for a malformed \<open>image_shape\<close> and for empty aspect ratios.
\<close>

theorem build_anchors_invalid_counterexample:
  "build_anchors [128, 128] [] 3 [1, 2, 1 / 2] 4 = Inl ValueError
   \<and> build_anchors [128, 128] [] 3 [1, 2, 1 / 2] 4 \<noteq> Inl InvalidConfiguration
   \<and> build_anchors [128] [[1, 16, 16, 64]] 3 [1, 2, 1 / 2] 4 \<noteq> Inl InvalidConfiguration
   \<and> build_anchors [128, 128] [[1, 16, 16, 64]] 3 [] 4 \<noteq> Inl InvalidConfiguration"
  by (simp add: build_anchors_def np_concatenate0_def build_strides_def unpack2_def
      build_branch_boxes_def np_concatenate1_def Let_def
      build_octaves_def build_aspect_def build_scales_def np_repeat_def np_tile_def)

text \<open>
  Claim C6, as amended.  When \<open>image_shape\<close> does not have exactly two elements, or
  \<open>branches\<close> is empty, or \<open>aspect_ratios\<close> is empty, \<open>build_anchors\<close> raises
  ValueError and returns no array.  The error comes from tuple unpacking or from
  \<open>np.concatenate\<close> of an empty list; the source has no validation step of its own.
\<close>

theorem build_anchors_invalid:
  assumes "length image_shape \<noteq> 2 \<or> branches = [] \<or> aspect_ratios = []"
  shows "build_anchors image_shape branches num_scales aspect_ratios scale = Inl ValueError"
proof (cases "branches = []")
  case True
  then show ?thesis
    by (simp add: build_anchors_def np_concatenate0_def)
next
  case False
  then have idx: "[0..<length branches] = 0 # [1..<length branches]"
    by (simp add: upt_conv_Cons)
  have "anchors_loop image_shape branches num_scales aspect_ratios scale
          (0 # [1..<length branches]) = Inl ValueError"
  proof (cases "length image_shape \<noteq> 2")
    case True
    then have "unpack2 image_shape = Inl ValueError"
      by (simp add: unpack2_Inl)
    then have "build_strides 0 image_shape branches (num_scales * length aspect_ratios)
               = Inl ValueError"
      by (simp add: build_strides_def)
    then show ?thesis by (simp add: Let_def)
  next
    case len: False
    with assms \<open>branches \<noteq> []\<close> have ars: "aspect_ratios = []" by simp
    show ?thesis
    proof (cases "build_strides 0 image_shape branches (num_scales * length aspect_ratios)")
      case (Inl e)
      then have "e = ValueError"
        by (auto simp: build_strides_def unpack2_Inl Let_def split: sum.splits prod.splits)
      with Inl show ?thesis by (simp add: Let_def)
    next
      case (Inr st)
      then have "st = ([], [])"
        by (auto simp: build_strides_def ars Let_def split: sum.splits prod.splits)
      with Inr show ?thesis
        by (simp add: Let_def ars build_branch_boxes_def np_concatenate1_def)
    qed
  qed
  then show ?thesis
    by (simp add: build_anchors_def idx)
qed

theorem build_anchors_invalid_witness:
  "build_anchors [128, 128] [[1, 16, 16, 64]] 3 [] 4 = Inl ValueError
   \<and> build_anchors [128, 128, 3] [[1, 16, 16, 64]] 3 [1, 2, 1 / 2] 4 = Inl ValueError"
  using build_anchors_invalid [of "[128, 128]" "[[1, 16, 16, 64]]" "[]" 3 4]
    build_anchors_invalid [of "[128, 128, 3]" "[[1, 16, 16, 64]]" "[1, 2, 1 / 2]" 3 4]
  by simp

lemma build_anchors_example:
  "build_anchors [64, 128] [[1, 1, 2, 8]] 1 [1] 4 = Inr [[1 / 4, 1 / 2, 2, 4], [3 / 4, 1 / 2, 2, 4]]"
proof -
  have "build_anchors [64, 128] [[1, 1, 2, 8]] 1 [1] 4
        = Inr (to_center_form (concat (map (anchor_rows 64 128 1 [1] 4) [[1, 1, 2, 8]])))"
    by (rule build_anchors_valid) (simp_all add: valid_branch_def)
  then show ?thesis
    by (simp add: anchor_rows_def grid_box_def to_center_form_def Let_def numeral_2_eq_2)
qed

theorem build_anchors_round_trip_witness:
  "\<exists>anchor_boxes corners.
       anchors_loop [64, 128] [[1, 1, 2, 8]] 1 [1] 4 [0..<length [[1::nat, 1, 2, 8]]] = Inr anchor_boxes
     \<and> np_concatenate0 anchor_boxes = Inr corners
     \<and> [[1 / 4, 1 / 2, 2, 4], [3 / 4, 1 / 2, 2, 4]] = to_center_form corners
     \<and> to_corner_form (to_center_form corners) = corners"
  using build_anchors_round_trip [OF build_anchors_example] .

section \<open>Synthetic shapes loader: auxiliary facts and claims\<close>

lemma map2_same: "map2 f (map g xs) (map h xs) = map (\<lambda>x. f (g x) (h x)) xs"
  by (induction xs) simp_all

lemma map2_self: "map2 f xs (map h xs) = map (\<lambda>x. f x (h x)) xs"
  by (induction xs) simp_all

lemma occlusion_step_pixelwise: "occlusion_step m i j = map (map (step_pixel i j)) m"
proof -
  have a: "np_logical_and (get_channel m i) (get_channel m j)
           = map (map (\<lambda>p. p ! i \<noteq> 0 \<and> p ! j \<noteq> 0)) m"
    by (simp add: np_logical_and_def get_channel_def map2_same)
  have x: "np_logical_xor (get_channel m i) (map (map (\<lambda>p. p ! i \<noteq> 0 \<and> p ! j \<noteq> 0)) m)
           = map (map (\<lambda>p. (p ! i \<noteq> 0) \<noteq> (p ! i \<noteq> 0 \<and> p ! j \<noteq> 0))) m"
    by (simp add: np_logical_xor_def get_channel_def map2_same)
  have c: "bool_astype_uint8 (map (map (\<lambda>p. (p ! i \<noteq> 0) \<noteq> (p ! i \<noteq> 0 \<and> p ! j \<noteq> 0))) m)
           = map (map (\<lambda>p. if (p ! i \<noteq> 0) \<noteq> (p ! i \<noteq> 0 \<and> p ! j \<noteq> 0) then 1 else 0)) m"
    by (simp add: bool_astype_uint8_def comp_def)
  show ?thesis
    unfolding occlusion_step_def Let_def a x c
    by (simp add: set_channel_def map2_self step_pixel_def)
qed

lemma foldl_pixelwise:
  "foldl (\<lambda>m j. map (map (F j)) m) m js = map (map (\<lambda>p. foldl (\<lambda>p j. F j p) p js)) m"
  by (induction js arbitrary: m) (simp_all add: comp_def)

lemma resolve_occlusion_pixelwise: "resolve_occlusion n m = map (map (resolve_pixel n)) m"
proof -
  have inner: "(\<lambda>m i. foldl (\<lambda>m j. occlusion_step m i j) m [i + 1..<n])
        = (\<lambda>m i. map (map (\<lambda>p. foldl (\<lambda>p j. step_pixel i j p) p [i + 1..<n])) m)"
    by (simp only: occlusion_step_pixelwise foldl_pixelwise)
  show ?thesis
    unfolding resolve_occlusion_def inner resolve_pixel_def
    using foldl_pixelwise [of "\<lambda>i p. foldl (\<lambda>p j. step_pixel i j p) p [i + 1..<n]" m "[0..<n]"]
    by simp
qed

lemma inner_loop_pixel:
  assumes "i < length p" "i \<notin> set js"
  shows "\<exists>w. foldl (\<lambda>p j. step_pixel i j p) p js = p[i := w]
             \<and> (w \<noteq> 0 \<longleftrightarrow> p ! i \<noteq> 0 \<and> (\<forall>j \<in> set js. p ! j = 0))"
  using assms
proof (induction js arbitrary: p)
  case Nil
  have "foldl (\<lambda>p j. step_pixel i j p) p [] = p[i := p ! i]
        \<and> (p ! i \<noteq> 0 \<longleftrightarrow> p ! i \<noteq> 0 \<and> (\<forall>j \<in> set []. p ! j = 0))"
    by simp
  then show ?case by (rule exI)
next
  case (Cons j js)
  define v :: nat where "v = (if (p ! i \<noteq> 0) \<noteq> (p ! i \<noteq> 0 \<and> p ! j \<noteq> 0) then 1 else 0)"
  define q where "q = p[i := v]"
  have q: "step_pixel i j p = q" by (simp add: step_pixel_def q_def v_def)
  have "i < length q" "i \<notin> set js" using Cons.prems by (simp_all add: q_def)
  from Cons.IH [OF this] obtain w where
    w: "foldl (\<lambda>p j. step_pixel i j p) q js = q[i := w]"
    and wv: "w \<noteq> 0 \<longleftrightarrow> q ! i \<noteq> 0 \<and> (\<forall>j \<in> set js. q ! j = 0)"
    by blast
  have other: "q ! k = p ! k" if "k \<in> set js" for k
  proof -
    from that Cons.prems(2) have "i \<noteq> k" by auto
    then show ?thesis by (simp add: q_def)
  qed
  have qi: "q ! i = v" using Cons.prems(1) by (simp add: q_def)
  have vv: "v \<noteq> 0 \<longleftrightarrow> p ! i \<noteq> 0 \<and> p ! j = 0"
    by (auto simp: v_def)
  have "foldl (\<lambda>p j. step_pixel i j p) p (j # js) = p[i := w]"
    using w q by (simp add: q_def)
  moreover have "w \<noteq> 0 \<longleftrightarrow> p ! i \<noteq> 0 \<and> (\<forall>k \<in> set (j # js). p ! k = 0)"
    unfolding wv qi vv using other by auto
  ultimately show ?case by blast
qed

lemma outer_loop_pixel:
  assumes "length p = n" "a \<le> n"
  shows "length (foldl (\<lambda>p i. foldl (\<lambda>p j. step_pixel i j p) p [i + 1..<n]) p [0..<a]) = n
       \<and> (\<forall>i < a. foldl (\<lambda>p i. foldl (\<lambda>p j. step_pixel i j p) p [i + 1..<n]) p [0..<a] ! i \<noteq> 0
              \<longleftrightarrow> p ! i \<noteq> 0 \<and> (\<forall>j. i < j \<and> j < n \<longrightarrow> p ! j = 0))
       \<and> (\<forall>i. a \<le> i \<longrightarrow>
              foldl (\<lambda>p i. foldl (\<lambda>p j. step_pixel i j p) p [i + 1..<n]) p [0..<a] ! i = p ! i)"
  using assms(2)
proof (induction a)
  case 0
  show ?case using assms(1) by simp
next
  case (Suc a)
  let ?outer = "\<lambda>a. foldl (\<lambda>p i. foldl (\<lambda>p j. step_pixel i j p) p [i + 1..<n]) p [0..<a]"
  let ?q = "?outer a"
  have IH: "length ?q = n"
    "\<And>i. i < a \<Longrightarrow> ?q ! i \<noteq> 0 \<longleftrightarrow> p ! i \<noteq> 0 \<and> (\<forall>j. i < j \<and> j < n \<longrightarrow> p ! j = 0)"
    "\<And>i. a \<le> i \<Longrightarrow> ?q ! i = p ! i"
    using Suc by simp_all
  have an: "a < length ?q" using Suc.prems IH(1) by simp
  have "a \<notin> set [a + 1..<n]" by simp
  from inner_loop_pixel [OF an this] obtain w where
    w: "foldl (\<lambda>p j. step_pixel a j p) ?q [a + 1..<n] = ?q[a := w]"
    and wv: "w \<noteq> 0 \<longleftrightarrow> ?q ! a \<noteq> 0 \<and> (\<forall>j \<in> set [a + 1..<n]. ?q ! j = 0)"
    by blast
  have next_eq: "?outer (Suc a) = ?q[a := w]"
    using w by simp
  have wv': "w \<noteq> 0 \<longleftrightarrow> p ! a \<noteq> 0 \<and> (\<forall>j. a < j \<and> j < n \<longrightarrow> p ! j = 0)"
    unfolding wv using IH(3) by auto
  have l: "length (?outer (Suc a)) = n"
    unfolding next_eq using IH(1) by simp
  have lo: "?outer (Suc a) ! i \<noteq> 0 \<longleftrightarrow> p ! i \<noteq> 0 \<and> (\<forall>j. i < j \<and> j < n \<longrightarrow> p ! j = 0)"
    if "i < Suc a" for i
  proof (cases "i = a")
    case True
    then show ?thesis unfolding next_eq using an wv' by simp
  next
    case False
    with that have "i < a" by simp
    with IH(2) [OF this] False show ?thesis unfolding next_eq by simp
  qed
  have hi: "?outer (Suc a) ! i = p ! i" if "Suc a \<le> i" for i
    unfolding next_eq using that IH(3) [of i] by simp
  from l lo hi show ?case by blast
qed

lemma resolve_pixel_char:
  assumes "length p = n" "i < n"
  shows "resolve_pixel n p ! i \<noteq> 0 \<longleftrightarrow> p ! i \<noteq> 0 \<and> (\<forall>j. i < j \<and> j < n \<longrightarrow> p ! j = 0)"
  using outer_loop_pixel [OF assms(1) le_refl] assms(2) unfolding resolve_pixel_def by blast


lemma dict_zip_map: "dict_zip ks (map f vs) k = map_option f (dict_zip ks vs k)"
proof -
  have "zip ks (map f vs) = map (\<lambda>(k, v). (k, f v)) (zip ks vs)"
    by (simp add: zip_map2)
  then have "map_of (rev (zip ks (map f vs))) k
             = map_of (map (\<lambda>(k, v). (k, f v)) (rev (zip ks vs))) k"
    by (simp only: rev_map)
  also have "\<dots> = map_option f (map_of (rev (zip ks vs)) k)"
    by (simp add: map_of_map)
  finally show ?thesis
    by (simp only: dict_zip_def)
qed

lemma draw_shape_raster:
  "draw_shape P L img shape (cx, cy, sz) col =
     (case raster_of P L shape of None \<Rightarrow> Inl KeyError
      | Some r \<Rightarrow> Inr (stamp r img (cx, cy) col sz))"
proof -
  have d: "dict_zip ks [draw_square P, draw_circle P, draw_triangle P] shape
        = map_option stamp (dict_zip ks [square_covers P, circle_covers P, triangle_covers P] shape)"
    for ks
    using dict_zip_map [of ks stamp "[square_covers P, circle_covers P, triangle_covers P]" shape]
    by (simp add: draw_square_def draw_circle_def draw_triangle_def)
  show ?thesis
    unfolding draw_shape_def raster_of_def Let_def prod.case d
    by (cases "dict_zip (drop 1 (class_names L))
                 [square_covers P, circle_covers P, triangle_covers P] shape") simp_all
qed

lemma length_stamp [simp]: "length (stamp r img c col sz) = length img"
  by (simp add: stamp_def)

lemma length_stamp_row:
  "y < length img \<Longrightarrow> length (stamp r img c col sz ! y) = length (img ! y)"
  by (simp add: stamp_def nth_enumerate_eq)

lemma map_length_stamp: "map length (stamp r img c col sz) = map length img"
  by (rule nth_equalityI) (simp_all add: length_stamp_row)

lemma stamp_nth:
  assumes "y < length img" "x < length (img ! y)"
  shows "stamp r img c col sz ! y ! x
         = (if r c sz (int x) (int y) then take (length (img ! y ! x)) col else img ! y ! x)"
  using assms by (simp add: stamp_def nth_enumerate_eq)

lemma draw_class_masks_loop_char:
  assumes "draw_class_masks_loop P L cms a shapes = Inr cms'"
  shows "length cms' = length cms
       \<and> (\<forall>s \<in> set shapes. raster_of P L (fst s) \<noteq> None)
       \<and> (shapes \<noteq> [] \<longrightarrow> a + length shapes \<le> length cms)
       \<and> (\<forall>i < length cms. cms' ! i =
             (if a \<le> i \<and> i < a + length shapes then mask_stamp P L (shapes ! (i - a)) (cms ! i)
              else cms ! i))"
  using assms
proof (induction P L cms a shapes rule: draw_class_masks_loop.induct)
  case (1 P L cms a)
  then show ?case by auto
next
  case (2 P L cms a shape col dimensions rest)
  obtain cx cy sz where dims: "dimensions = (cx, cy, sz)"
    by (cases dimensions) auto
  from "2.prems" have a: "a < length cms"
    by (simp split: if_splits)
  from "2.prems" a obtain r where r: "raster_of P L shape = Some r"
    by (cases "raster_of P L shape") (simp_all add: dims draw_shape_raster)
  define cm where "cm = stamp r (cms ! a) (cx, cy) [1, 1, 1] sz"
  have ds: "draw_shape P L (cms ! a) shape dimensions [1, 1, 1] = Inr cm"
    by (simp add: dims draw_shape_raster r cm_def)
  have rest: "draw_class_masks_loop P L (cms[a := cm]) (Suc a) rest = Inr cms'"
    using "2.prems" a ds by simp
  have nle: "\<not> length cms \<le> a" using a by simp
  note IH = "2.IH" [OF nle ds rest]
  have cm: "cm = mask_stamp P L (shape, col, dimensions) (cms ! a)"
    by (simp add: mask_stamp_def dims r cm_def)
  have len: "length cms' = length cms" using IH by simp
  have ras: "\<forall>s \<in> set ((shape, col, dimensions) # rest). raster_of P L (fst s) \<noteq> None"
    using IH r by simp
  have bound: "a + length ((shape, col, dimensions) # rest) \<le> length cms"
    using IH a by (cases rest) simp_all
  have el: "cms' ! i =
             (if a \<le> i \<and> i < a + length ((shape, col, dimensions) # rest)
              then mask_stamp P L (((shape, col, dimensions) # rest) ! (i - a)) (cms ! i)
              else cms ! i)" if "i < length cms" for i
  proof -
    from IH that have e: "cms' ! i =
             (if Suc a \<le> i \<and> i < Suc a + length rest
              then mask_stamp P L (rest ! (i - Suc a)) (cms[a := cm] ! i)
              else cms[a := cm] ! i)"
      by simp
    show ?thesis
    proof (cases "i = a")
      case True
      with e that cm show ?thesis by simp
    next
      case False
      then have "cms[a := cm] ! i = cms ! i" by simp
      moreover have "((shape, col, dimensions) # rest) ! (i - a) = rest ! (i - Suc a)" if "Suc a \<le> i"
        using that by (simp add: nth_Cons' Suc_le_eq)
      ultimately show ?thesis
        using e False by auto
    qed
  qed
  from len ras bound el show ?case by blast
qed

lemma map_length_mask_stamp: "map length (mask_stamp P L s img) = map length img"
  by (cases s) (auto simp: mask_stamp_def map_length_stamp)

lemma mask_stamp_pixel:
  assumes "raster_of P L (fst s) \<noteq> None" "y < h" "x < w"
  shows "mask_stamp P L s (replicate h (replicate w [0])) ! y ! x
         = [if shape_covers P L s x y then 1 else 0]"
proof -
  obtain shape col cx cy sz where s: "s = (shape, col, (cx, cy, sz))"
    by (cases s) auto
  from assms(1) obtain r where r: "raster_of P L shape = Some r"
    by (auto simp: s)
  show ?thesis
    using assms(2,3) by (simp add: s mask_stamp_def r shape_covers_def stamp_nth)
qed

lemma np_concatenate_last_same:
  assumes "cms \<noteq> []" "\<And>b. b \<in> set cms \<Longrightarrow> map length b = replicate h w"
  shows "np_concatenate_last cms
         = Inr (map (\<lambda>y. map (\<lambda>x. concat (map (\<lambda>b. b ! y ! x) cms)) [0..<w]) [0..<h])"
proof -
  obtain a rest where cms: "cms = a # rest"
    using assms(1) by (cases cms) auto
  have a: "map length a = replicate h w"
    using assms(2) [of a] by (simp add: cms)
  then have la: "length a = h"
    using length_map [of length a] by simp
  have row: "length (a ! y) = w" if "y < h" for y
    using nth_map [of y a length] that a la by simp
  have no: "\<not> (\<exists>b \<in> set cms. map length b \<noteq> map length a)"
    using assms(2) a by simp
  have "map (\<lambda>y. map (\<lambda>x. concat (map (\<lambda>b. b ! y ! x) cms)) [0..<length (a ! y)]) [0..<length a]
      = map (\<lambda>y. map (\<lambda>x. concat (map (\<lambda>b. b ! y ! x) cms)) [0..<w]) [0..<h]"
    unfolding la by (rule map_cong) (simp_all add: row)
  then show ?thesis
    using no unfolding np_concatenate_last_def by (simp add: cms)
qed

lemma draw_class_masks_loop_ok:
  assumes "a + length shapes \<le> length cms" "\<forall>s \<in> set shapes. raster_of P L (fst s) \<noteq> None"
  shows "\<exists>cms'. draw_class_masks_loop P L cms a shapes = Inr cms'"
  using assms
proof (induction P L cms a shapes rule: draw_class_masks_loop.induct)
  case (1 P L cms a)
  show ?case by simp
next
  case (2 P L cms a shape col dimensions rest)
  obtain cx cy sz where dims: "dimensions = (cx, cy, sz)"
    by (cases dimensions) auto
  from "2.prems"(2) obtain r where r: "raster_of P L shape = Some r"
    by auto
  define cm where "cm = stamp r (cms ! a) (cx, cy) [1, 1, 1] sz"
  have ds: "draw_shape P L (cms ! a) shape dimensions [1, 1, 1] = Inr cm"
    by (simp add: dims draw_shape_raster r cm_def)
  have nle: "\<not> length cms \<le> a" using "2.prems"(1) by simp
  have "\<exists>cms'. draw_class_masks_loop P L (cms[a := cm]) (Suc a) rest = Inr cms'"
    using "2.prems" by (intro "2.IH" [OF nle ds]) simp_all
  then show ?case
    using nle ds by simp
qed

lemma draw_class_masks_loop_error:
  assumes "draw_class_masks_loop P L cms a shapes = Inl e" "a + length shapes \<le> length cms"
  shows "e = KeyError"
  using assms
proof (induction P L cms a shapes rule: draw_class_masks_loop.induct)
  case (1 P L cms a)
  then show ?case by simp
next
  case (2 P L cms a shape col dimensions rest)
  obtain cx cy sz where dims: "dimensions = (cx, cy, sz)"
    by (cases dimensions) auto
  have nle: "\<not> length cms \<le> a" using "2.prems"(2) by simp
  show ?case
  proof (cases "raster_of P L shape")
    case None
    with "2.prems"(1) nle show ?thesis
      by (simp add: dims draw_shape_raster)
  next
    case (Some r)
    define cm where "cm = stamp r (cms ! a) (cx, cy) [1, 1, 1] sz"
    have ds: "draw_shape P L (cms ! a) shape dimensions [1, 1, 1] = Inr cm"
      by (simp add: dims draw_shape_raster Some cm_def)
    have "draw_class_masks_loop P L (cms[a := cm]) (Suc a) rest = Inl e"
      using "2.prems"(1) nle ds by simp
    then show ?thesis
      using "2.prems"(2) by (intro "2.IH" [OF nle ds]) simp_all
  qed
qed

lemma draw_class_masks_closed:
  assumes "image_size L = (H, W)" "0 < max_num_shapes L" "0 \<le> H" "0 \<le> W"
    and "length shapes \<le> nat (max_num_shapes L)"
    and "\<forall>s \<in> set shapes. raster_of P L (fst s) \<noteq> None"
  shows "draw_class_masks P L shapes
       = Inr (map (\<lambda>y. map (\<lambda>x. map (\<lambda>i. if i < length shapes \<and> shape_covers P L (shapes ! i) x y
                                              then 1 else 0)
                                      [0..<nat (max_num_shapes L)])
                             [0..<nat W])
                    [0..<nat H])"
proof -
  define n where "n = nat (max_num_shapes L)"
  have npos: "0 < n" using assms(2) by (simp add: n_def)
  define zeros where "zeros = replicate (nat H) (replicate (nat W) [0::nat])"
  have z: "np_full H W [0] = Inr zeros"
    using assms(3,4) by (simp add: np_full_def zeros_def)
  have k: "length shapes \<le> n" using assms(5) by (simp add: n_def)
  from draw_class_masks_loop_ok [of 0 shapes "replicate n zeros" P L] k assms(6)
  obtain cms' where loop: "draw_class_masks_loop P L (replicate n zeros) 0 shapes = Inr cms'"
    by auto
  note ch = draw_class_masks_loop_char [OF loop]
  have len: "length cms' = n" using ch by simp
  have el: "cms' ! i = (if i < length shapes then mask_stamp P L (shapes ! i) zeros else zeros)"
    if "i < n" for i
    using ch that by simp
  have shape: "map length b = replicate (nat H) (nat W)" if "b \<in> set cms'" for b
  proof -
    from that len obtain i where i: "i < n" "b = cms' ! i"
      by (auto simp: in_set_conv_nth)
    have "map length zeros = replicate (nat H) (nat W)"
      by (simp add: zeros_def)
    then show ?thesis
      using el [OF i(1)] i(2) by (simp add: map_length_mask_stamp)
  qed
  have ne: "cms' \<noteq> []" using len npos by auto
  have pix: "cms' ! i ! y ! x
             = [if i < length shapes \<and> shape_covers P L (shapes ! i) x y then 1 else 0]"
    if "i < n" "y < nat H" "x < nat W" for i y x
  proof (cases "i < length shapes")
    case True
    then have "raster_of P L (fst (shapes ! i)) \<noteq> None"
      using assms(6) by simp
    from mask_stamp_pixel [OF this that(2,3)] True el [OF that(1)] show ?thesis
      by (simp add: zeros_def)
  next
    case False
    with el [OF that(1)] that(2,3) show ?thesis
      by (simp add: zeros_def)
  qed
  have cc: "concat (map (\<lambda>b. b ! y ! x) cms')
            = map (\<lambda>i. if i < length shapes \<and> shape_covers P L (shapes ! i) x y then 1 else 0) [0..<n]"
    if "y < nat H" "x < nat W" for y x
  proof -
    have "map (\<lambda>b. b ! y ! x) cms' = map (\<lambda>i. cms' ! i ! y ! x) [0..<n]"
      using len by (intro nth_equalityI) simp_all
    also have "\<dots> = map (\<lambda>i. [if i < length shapes \<and> shape_covers P L (shapes ! i) x y
                                 then 1 else 0]) [0..<n]"
      using that by (intro map_cong) (simp_all add: pix)
    finally show ?thesis by simp
  qed
  define m :: image where "m = map (\<lambda>y. map (\<lambda>x. map (\<lambda>i. if i < length shapes
                                  \<and> shape_covers P L (shapes ! i) x y
                                              then 1 else 0) [0..<n]) [0..<nat W]) [0..<nat H]"
  have "map (\<lambda>y. map (\<lambda>x. concat (map (\<lambda>b. b ! y ! x) cms')) [0..<nat W]) [0..<nat H] = m"
    unfolding m_def by (intro map_cong refl) (simp add: cc)
  then have cat: "np_concatenate_last cms' = Inr m"
    using np_concatenate_last_same [OF ne shape] by simp
  have "astype_uint8 m = m"
    unfolding m_def astype_uint8_def by (simp add: comp_def)
  then have "draw_class_masks P L shapes = Inr m"
    using assms(1,2) z loop cat by (simp add: draw_class_masks_def n_def)
  then show ?thesis
    by (simp add: m_def n_def)
qed

lemma draw_class_masks_conditions:
  assumes "draw_class_masks P L shapes = Inr drawn" "image_size L = (H, W)"
  shows "0 < max_num_shapes L \<and> 0 \<le> H \<and> 0 \<le> W
       \<and> length shapes \<le> nat (max_num_shapes L)
       \<and> (\<forall>s \<in> set shapes. raster_of P L (fst s) \<noteq> None)"
proof -
  have pos: "0 < max_num_shapes L"
  proof (rule ccontr)
    assume "\<not> 0 < max_num_shapes L"
    then have le: "max_num_shapes L \<le> 0" by simp
    show False
    proof (cases shapes)
      case Nil
      with assms le show False
        by (simp add: draw_class_masks_def np_concatenate_last_def)
    next
      case (Cons s rest)
      obtain shape col dims where "s = (shape, col, dims)" by (cases s) auto
      with Cons assms le show False
        by (simp add: draw_class_masks_def)
    qed
  qed
  have dims: "0 \<le> H \<and> 0 \<le> W"
    using assms pos by (auto simp: draw_class_masks_def np_full_def split: if_splits)
  define zeros where "zeros = replicate (nat H) (replicate (nat W) [0::nat])"
  have z: "np_full H W [0] = Inr zeros"
    using dims by (simp add: np_full_def zeros_def)
  from assms pos z obtain cms' where
    loop: "draw_class_masks_loop P L (replicate (nat (max_num_shapes L)) zeros) 0 shapes = Inr cms'"
    by (auto simp: draw_class_masks_def split: sum.splits)
  note ch = draw_class_masks_loop_char [OF loop]
  have "length shapes \<le> nat (max_num_shapes L)"
    using ch by (cases shapes) simp_all
  with pos dims ch show ?thesis by simp
qed

lemma draw_class_masks_char:
  assumes "draw_class_masks P L shapes = Inr drawn" "image_size L = (H, W)"
  shows "drawn = map (\<lambda>y. map (\<lambda>x. map (\<lambda>i. if i < length shapes \<and> shape_covers P L (shapes ! i) x y
                                              then 1 else 0)
                                      [0..<nat (max_num_shapes L)])
                             [0..<nat W])
                    [0..<nat H]"
  using draw_class_masks_conditions [OF assms] draw_class_masks_closed [OF assms(2), of shapes P]
    assms(1) by simp

lemma draw_class_masks_not_IndexError:
  assumes "length shapes \<le> nat (max_num_shapes L)"
  shows "draw_class_masks P L shapes \<noteq> Inl IndexError"
proof
  assume e: "draw_class_masks P L shapes = Inl IndexError"
  obtain H W where hw: "image_size L = (H, W)" by (cases "image_size L") auto
  show False
  proof (cases "max_num_shapes L \<le> 0")
    case True
    with assms have "shapes = []" by simp
    with e True hw show False
      by (simp add: draw_class_masks_def np_concatenate_last_def)
  next
    case False
    show False
    proof (cases "np_full H W [0]")
      case (Inl err)
      then have "err = ValueError" by (simp add: np_full_def split: if_splits)
      with e False hw Inl show False by (simp add: draw_class_masks_def)
    next
      case (Inr zeros)
      show False
      proof (cases "draw_class_masks_loop P L (replicate (nat (max_num_shapes L)) zeros) 0 shapes")
        case (Inl err)
        from draw_class_masks_loop_error [OF Inl] assms have "err = KeyError" by simp
        with e False hw Inr Inl show False by (simp add: draw_class_masks_def)
      next
        case cms: (Inr cms')
        show False
        proof (cases "np_concatenate_last cms'")
          case (Inl err)
          then have "err = ValueError"
            by (simp add: np_concatenate_last_def split: list.splits if_splits)
          with e False hw Inr cms Inl show False by (simp add: draw_class_masks_def)
        next
          case m: (Inr m)
          with e False hw Inr cms show False by (simp add: draw_class_masks_def)
        qed
      qed
    qed
  qed
qed

text \<open>Every element of a range is drawn for some raw value.\<close>

lemma random_randint_onto:
  assumes "a \<le> v" "v \<le> b"
  shows "random_randint a b (g\<lparr>py_random := nat (v - a) # rest\<rparr>)
         = Inr (v, g\<lparr>py_random := rest\<rparr>)"
proof -
  have "nat (v - a) < nat (b - a + 1)" using assms by simp
  then have "nat (v - a) mod nat (b - a + 1) = nat (v - a)" by simp
  then show ?thesis
    using assms by (simp add: random_randint_def next_raw_def)
qed

lemma random_choice_onto:
  assumes "i < length seq"
  shows "random_choice seq (g\<lparr>py_random := i # rest\<rparr>) = Inr (seq ! i, g\<lparr>py_random := rest\<rparr>)"
  using assms by (auto simp: random_choice_def next_raw_def)

lemma np_random_randint_onto:
  assumes "low \<le> v" "v < high"
  shows "np_random_randint low high 1 (g\<lparr>np_random := (v - low) # rest\<rparr>)
         = Inr ([v], g\<lparr>np_random := rest\<rparr>)"
  using assms by (simp add: next_raw_def)

lemma random_randint_range:
  assumes "random_randint a b g = Inr (v, g')"
  shows "a \<le> v \<and> v \<le> b"
proof -
  from assms have ab: "a \<le> b"
    by (simp add: random_randint_def split: if_splits)
  obtain r rest where nr: "next_raw (py_random g) = (r, rest)"
    by (cases "next_raw (py_random g)") auto
  from assms ab nr have v: "v = a + int (r mod nat (b - a + 1))"
    by (simp add: random_randint_def)
  have "r mod nat (b - a + 1) < nat (b - a + 1)"
    using ab by (intro mod_less_divisor) simp
  then have "int (r mod nat (b - a + 1)) < b - a + 1"
    using ab by linarith
  with v show ?thesis by simp
qed

lemma random_choice_member:
  assumes "random_choice seq g = Inr (v, g')"
  shows "v \<in> set seq"
proof -
  from assms have ne: "seq \<noteq> []"
    by (simp add: random_choice_def split: if_splits)
  obtain r rest where nr: "next_raw (py_random g) = (r, rest)"
    by (cases "next_raw (py_random g)") auto
  from assms ne nr have "v = seq ! (r mod length seq)"
    by (simp add: random_choice_def)
  with ne show ?thesis by simp
qed

lemma np_random_randint_range:
  assumes "np_random_randint low high n g = Inr (vs, g')"
  shows "length vs = n \<and> (\<forall>v \<in> set vs. low \<le> v \<and> v < high)"
  using assms
proof (induction n arbitrary: g vs)
  case 0
  then show ?case by (simp split: if_splits)
next
  case (Suc n)
  from Suc.prems have lh: "low < high"
    by (simp split: if_splits)
  obtain r rest where nr: "next_raw (np_random g) = (r, rest)"
    by (cases "next_raw (np_random g)") auto
  from Suc.prems lh nr obtain ws where
    rec: "np_random_randint low high n (g\<lparr>np_random := rest\<rparr>) = Inr (ws, g')"
    and vs: "vs = (low + r mod (high - low)) # ws"
    by (auto split: sum.splits)
  have "r mod (high - low) < high - low"
    using lh by (intro mod_less_divisor) simp
  then have "low + r mod (high - low) < high" by simp
  with Suc.IH [OF rec] vs show ?case by simp
qed

lemma sample_shapes_loop_length:
  assumes "sample_shapes_loop L H W n g = Inr (shapes, g')"
  shows "length shapes = n"
  using assms
proof (induction n arbitrary: g shapes)
  case 0
  then show ?case by simp
next
  case (Suc n)
  from Suc.prems obtain s g1 rest where
    "sample_shapes_loop L H W n g1 = Inr (rest, g')" "shapes = s # rest"
    by (auto split: sum.splits)
  with Suc.IH show ?case by simp
qed

lemma sample_shapes_length:
  assumes "sample_shapes L num_shapes H W offset g = Inr (shapes, g')"
  shows "1 \<le> length shapes \<and> int (length shapes) \<le> num_shapes"
proof -
  from assms obtain N g1 where
    n: "random_randint 1 num_shapes g = Inr (N, g1)"
    and loop: "sample_shapes_loop L H W (nat N) g1 = Inr (shapes, g')"
    by (auto simp: sample_shapes_def split: sum.splits)
  from random_randint_range [OF n] sample_shapes_loop_length [OF loop]
  show ?thesis by linarith
qed

lemma nms_select_subset:
  "set (nms_select boxes thresh kept order) \<subseteq> set kept \<union> set order
   \<and> length (nms_select boxes thresh kept order) \<le> length kept + length order"
proof (induction order arbitrary: kept)
  case Nil
  show ?case by simp
next
  case (Cons i rest)
  show ?case
  proof (cases "\<exists>k \<in> set kept. thresh < box_iou (boxes ! k) (boxes ! i)")
    case True
    with Cons.IH [of kept] show ?thesis by auto
  next
    case False
    with Cons.IH [of "kept @ [i]"] show ?thesis by auto
  qed
qed

lemma apply_non_max_suppression_indices:
  assumes "apply_non_max_suppression boxes scores thresh = (args, num_boxes)"
  shows "num_boxes = length args \<and> length args \<le> length boxes
       \<and> (\<forall>i \<in> set args. i < length boxes)"
proof -
  let ?order = "sort_key (\<lambda>i. - (scores ! i)) [0..<length boxes]"
  from assms have a: "args = nms_select boxes thresh [] ?order" and n: "num_boxes = length args"
    by (auto simp: apply_non_max_suppression_def Let_def)
  from nms_select_subset [of boxes thresh "[]" ?order]
  have "set args \<subseteq> {0..<length boxes}" "length args \<le> length boxes"
    unfolding a by simp_all
  with n show ?thesis by auto
qed

lemma py_getitems_ok:
  assumes "\<forall>i \<in> set idx. i < length xs"
  shows "py_getitems xs idx = Inr (map (\<lambda>i. xs ! i) idx)"
  using assms by (induction idx) simp_all

lemma filter_shapes_ok:
  assumes "length boxes = length shapes"
  shows "\<exists>selected boxes'. filter_shapes boxes shapes thresh = Inr (selected, boxes')
           \<and> length selected = length boxes' \<and> length selected \<le> length shapes"
proof -
  obtain args num_boxes where
    nms: "apply_non_max_suppression boxes (replicate (length boxes) 1) thresh = (args, num_boxes)"
    by (cases "apply_non_max_suppression boxes (replicate (length boxes) 1) thresh") auto
  note idx = apply_non_max_suppression_indices [OF nms]
  have t: "take num_boxes args = args" using idx by simp
  have s: "py_getitems shapes args = Inr (map (\<lambda>i. shapes ! i) args)"
    using idx assms by (intro py_getitems_ok) simp
  have b: "py_getitems boxes args = Inr (map (\<lambda>i. boxes ! i) args)"
    using idx by (intro py_getitems_ok) simp
  have "filter_shapes boxes shapes thresh
        = Inr (map (\<lambda>i. shapes ! i) args, map (\<lambda>i. boxes ! i) args)"
    by (simp add: filter_shapes_def Let_def nms t s b)
  then show ?thesis
    using idx assms by simp
qed

lemma length_compute_bounding_boxes [simp]:
  "length (compute_bounding_boxes shapes) = length shapes"
  by (simp add: compute_bounding_boxes_def)

lemma draw_masks_not_IndexError:
  assumes "length shapes \<le> nat (max_num_shapes L)"
  shows "draw_masks P L shapes \<noteq> Inl IndexError"
  using draw_class_masks_not_IndexError [OF assms, of P]
  by (auto simp: draw_masks_def split: sum.splits)

text \<open>
  Claim C10.  Whenever \<open>_sample_shapes\<close> returns, the filter returns as well, the
  number of surviving shapes is at most the number of sampled shapes, which is at most
  \<open>max_num_shapes\<close>, and \<open>_draw_masks\<close> on the survivors does not raise IndexError:
  every shape index is below the number of allocated mask channels.
  \<open>apply_non_max_suppression\<close> is the model taken from the specification.
\<close>

theorem survivors_within_capacity:
  assumes "sample_shapes L (max_num_shapes L) H W offset g = Inr (shapes, g1)"
  shows "\<exists>selected boxes'.
           filter_shapes (compute_bounding_boxes shapes) shapes (iou_thresh L)
             = Inr (selected, boxes')
         \<and> length selected \<le> length shapes
         \<and> int (length shapes) \<le> max_num_shapes L
         \<and> int (length selected) \<le> max_num_shapes L
         \<and> draw_masks P L selected \<noteq> Inl IndexError"
proof -
  from sample_shapes_length [OF assms] have n: "int (length shapes) \<le> max_num_shapes L"
    by simp
  from filter_shapes_ok [of "compute_bounding_boxes shapes" shapes "iou_thresh L"]
  obtain selected boxes' where
    f: "filter_shapes (compute_bounding_boxes shapes) shapes (iou_thresh L) = Inr (selected, boxes')"
    and l: "length selected \<le> length shapes"
    by auto
  from l n have c: "int (length selected) \<le> max_num_shapes L" by simp
  then have "length selected \<le> nat (max_num_shapes L)" by simp
  from draw_masks_not_IndexError [OF this] f l n c show ?thesis by blast
qed

lemma sample_shape_ranges:
  assumes "sample_shape L H W offset g = Inr ((shape, col, (center_x, center_y, size')), g')"
  shows "shape \<in> set (drop 1 (class_names L))
       \<and> length col = 3 \<and> (\<forall>c \<in> set col. c \<le> 254) \<and> 255 \<notin> set col
       \<and> offset \<le> center_x \<and> center_x \<le> W - offset - 1
       \<and> offset \<le> center_y \<and> center_y \<le> H - offset - 1
       \<and> offset \<le> size' \<and> size' \<le> H div 4"
proof -
  from assms obtain g1 g2 g3 g4 where
    c: "random_choice (drop 1 (class_names L)) g = Inr (shape, g1)"
    and k: "np_random_randint 0 255 3 g1 = Inr (col, g2)"
    and x: "random_randint offset (W - offset - 1) g2 = Inr (center_x, g3)"
    and y: "random_randint offset (H - offset - 1) g3 = Inr (center_y, g4)"
    and z: "random_randint offset (H div 4) g4 = Inr (size', g')"
    by (auto simp: sample_shape_def split: sum.splits)
  from np_random_randint_range [OF k] have "length col = 3" "\<forall>c \<in> set col. c \<le> 254"
    by auto
  moreover from this have "255 \<notin> set col" by auto
  ultimately show ?thesis
    using random_choice_member [OF c] random_randint_range [OF x] random_randint_range [OF y]
      random_randint_range [OF z] by simp
qed

lemma sample_shapes_loop_ranges:
  assumes "sample_shapes_loop L H W n g = Inr (shapes, g')"
  shows "list_all (drawn_in_range L H W) shapes"
  using assms
proof (induction n arbitrary: g shapes)
  case 0
  then show ?case by simp
next
  case (Suc n)
  from Suc.prems obtain s g1 rest where
    s: "sample_shape L H W 20 g = Inr (s, g1)"
    and rest: "sample_shapes_loop L H W n g1 = Inr (rest, g')"
    and shapes: "shapes = s # rest"
    by (auto split: sum.splits)
  obtain shape col cx cy sz where sd: "s = (shape, col, (cx, cy, sz))"
    by (cases s) auto
  from sample_shape_ranges [OF s [unfolded sd]] have "drawn_in_range L H W s"
    by (simp add: drawn_in_range_def sd list_all_iff)
  with Suc.IH [OF rest] shapes show ?case by simp
qed

text \<open>
  Claim C7, the ranges the code draws from.  Whenever \<open>_sample_shapes\<close> returns, the
  number of shapes lies in \<open>[1, num_shapes]\<close> and for every shape the kind is one of
  the non-background class names, the centre coordinates lie in \<open>[20, W - 20 - 1]\<close> and
  \<open>[20, H - 20 - 1]\<close> whatever the \<open>offset\<close> argument is, the size lies in
  \<open>[20, H // 4]\<close>, and the colour has three components, each at most 254: the value
  255 is never drawn, because \<open>np.random.randint(0, 255, size=3)\<close> excludes its upper
  bound.  The claim's interval \<open>[0, 255]\<close> for the colour is not what the code samples.
  Probabilities (uniformity, independence) are outside the model.
\<close>

theorem sample_shapes_ranges:
  assumes "sample_shapes L num_shapes H W offset g = Inr (shapes, g')"
  shows "1 \<le> length shapes \<and> int (length shapes) \<le> num_shapes
       \<and> list_all (drawn_in_range L H W) shapes"
proof -
  from assms obtain N g1 where
    loop: "sample_shapes_loop L H W (nat N) g1 = Inr (shapes, g')"
    by (auto simp: sample_shapes_def split: sum.splits)
  from sample_shapes_length [OF assms] sample_shapes_loop_ranges [OF loop]
  show ?thesis by simp
qed

lemma draw_masks_closed:
  assumes "draw_masks P L shapes = Inr ms" "image_size L = (H, W)"
  shows "draw_class_masks P L shapes
           = Inr (map (\<lambda>y. map (\<lambda>x. drawn_pixel P L shapes x y) [0..<nat W]) [0..<nat H])"
    and "ms = map (\<lambda>y. map (\<lambda>x. resolve_pixel (nat (max_num_shapes L)) (drawn_pixel P L shapes x y))
                         [0..<nat W]) [0..<nat H]"
    and "length shapes \<le> nat (max_num_shapes L)"
proof -
  from assms(1) obtain drawn where d: "draw_class_masks P L shapes = Inr drawn"
    and ms: "ms = resolve_occlusion (nat (max_num_shapes L)) drawn"
    by (auto simp: draw_masks_def split: sum.splits)
  from draw_class_masks_char [OF d assms(2)]
  have c: "drawn = map (\<lambda>y. map (\<lambda>x. drawn_pixel P L shapes x y) [0..<nat W]) [0..<nat H]"
    by (simp add: drawn_pixel_def)
  show "draw_class_masks P L shapes
           = Inr (map (\<lambda>y. map (\<lambda>x. drawn_pixel P L shapes x y) [0..<nat W]) [0..<nat H])"
    using d c by simp
  show "ms = map (\<lambda>y. map (\<lambda>x. resolve_pixel (nat (max_num_shapes L)) (drawn_pixel P L shapes x y))
                         [0..<nat W]) [0..<nat H]"
    unfolding ms resolve_occlusion_pixelwise c by (simp add: comp_def)
  show "length shapes \<le> nat (max_num_shapes L)"
    using draw_class_masks_conditions [OF d assms(2)] by simp
qed

lemma length_drawn_pixel [simp]: "length (drawn_pixel P L shapes x y) = nat (max_num_shapes L)"
  by (simp add: drawn_pixel_def)

lemma drawn_pixel_nth:
  "i < nat (max_num_shapes L) \<Longrightarrow>
   drawn_pixel P L shapes x y ! i \<noteq> 0 \<longleftrightarrow> i < length shapes \<and> shape_covers P L (shapes ! i) x y"
  by (simp add: drawn_pixel_def)

lemma visible_pixel:
  assumes "i < nat (max_num_shapes L)" "length shapes \<le> nat (max_num_shapes L)"
  shows "resolve_pixel (nat (max_num_shapes L)) (drawn_pixel P L shapes x y) ! i \<noteq> 0
     \<longleftrightarrow> i < length shapes \<and> shape_covers P L (shapes ! i) x y
         \<and> (\<forall>j. i < j \<and> j < length shapes \<longrightarrow> \<not> shape_covers P L (shapes ! j) x y)"
proof -
  let ?n = "nat (max_num_shapes L)"
  have a: "drawn_pixel P L shapes x y ! j = 0" if "j < ?n" "\<not> (j < length shapes \<and> shape_covers P L (shapes ! j) x y)" for j
    using drawn_pixel_nth [OF that(1), of P shapes x y] that(2) by simp
  have b: "\<not> shape_covers P L (shapes ! j) x y" if "j < length shapes" "drawn_pixel P L shapes x y ! j = 0" for j
  proof -
    from that(1) assms(2) have "j < ?n" by simp
    from drawn_pixel_nth [OF this, of P shapes x y] that show ?thesis by simp
  qed
  have "(\<forall>j. i < j \<and> j < ?n \<longrightarrow> drawn_pixel P L shapes x y ! j = 0)
        \<longleftrightarrow> (\<forall>j. i < j \<and> j < length shapes \<longrightarrow> \<not> shape_covers P L (shapes ! j) x y)"
  proof (intro iffI allI impI)
    fix j
    assume h: "\<forall>j. i < j \<and> j < ?n \<longrightarrow> drawn_pixel P L shapes x y ! j = 0"
      and j: "i < j \<and> j < length shapes"
    from j assms(2) have "j < ?n" by simp
    with h j have "drawn_pixel P L shapes x y ! j = 0" by simp
    with b j show "\<not> shape_covers P L (shapes ! j) x y" by simp
  next
    fix j
    assume h: "\<forall>j. i < j \<and> j < length shapes \<longrightarrow> \<not> shape_covers P L (shapes ! j) x y"
      and j: "i < j \<and> j < ?n"
    from h j have "\<not> (j < length shapes \<and> shape_covers P L (shapes ! j) x y)" by blast
    with a j show "drawn_pixel P L shapes x y ! j = 0" by simp
  qed
  then show ?thesis
    using resolve_pixel_char [OF length_drawn_pixel assms(1), of P shapes x y]
      drawn_pixel_nth [OF assms(1), of P shapes x y] by simp
qed

lemma channel_nonempty_grid:
  "channel_nonempty (map (\<lambda>y. map (\<lambda>x. F x y) [0..<w]) [0..<h]) i
     \<longleftrightarrow> (\<exists>y < h. \<exists>x < w. F x y ! i \<noteq> 0)"
  by (fastforce simp: channel_nonempty_def)

lemma channel_nonempty_char:
  assumes "draw_masks P L shapes = Inr ms" "image_size L = (H, W)" "i < nat (max_num_shapes L)"
  shows "channel_nonempty ms i
     \<longleftrightarrow> i < length shapes
         \<and> (\<exists>y < nat H. \<exists>x < nat W. shape_covers P L (shapes ! i) x y
               \<and> (\<forall>j. i < j \<and> j < length shapes \<longrightarrow> \<not> shape_covers P L (shapes ! j) x y))"
  unfolding draw_masks_closed(2) [OF assms(1,2)] channel_nonempty_grid
  using visible_pixel [OF assms(3) draw_masks_closed(3) [OF assms(1,2)], of P]
  by auto

lemma class_args_loop_length:
  assumes "class_args_loop L shapes = Inr args"
  shows "length args = length shapes"
  using assms
proof (induction shapes arbitrary: args)
  case Nil
  then show ?case by simp
next
  case (Cons s rest)
  from Cons.prems obtain a as where "class_args_loop L rest = Inr as" "args = a # as"
    by (auto split: option.splits sum.splits)
  with Cons.IH show ?case by simp
qed

lemma load_sample_parts:
  assumes "load_sample P L g = Inr (s, g')"
  shows "\<exists>H W shapes0 g1 shapes boxes' class_args.
           image_size L = (H, W)
         \<and> sample_shapes L (max_num_shapes L) H W 20 g = Inr (shapes0, g1)
         \<and> filter_shapes (compute_bounding_boxes shapes0) shapes0 (iou_thresh L)
             = Inr (shapes, boxes')
         \<and> draw_shapes P L shapes g1 = Inr (image s, g')
         \<and> draw_masks P L shapes = Inr (masks s)
         \<and> class_args_loop L shapes = Inr class_args
         \<and> box_data s = map2 (\<lambda>box arg. box @ [arg]) boxes' class_args"
proof -
  obtain H W where hw: "image_size L = (H, W)" by (cases "image_size L") auto
  from assms hw obtain shapes0 g1 where
    a: "sample_shapes L (max_num_shapes L) H W 20 g = Inr (shapes0, g1)"
    by (auto simp: load_sample_def split: sum.splits)
  from assms hw a obtain shapes boxes' where
    b: "filter_shapes (compute_bounding_boxes shapes0) shapes0 (iou_thresh L) = Inr (shapes, boxes')"
    by (auto simp: load_sample_def Let_def split: sum.splits)
  from assms hw a b obtain img g2 where
    c: "draw_shapes P L shapes g1 = Inr (img, g2)"
    by (auto simp: load_sample_def Let_def split: sum.splits)
  from assms hw a b c obtain m where
    d: "draw_masks P L shapes = Inr m"
    by (auto simp: load_sample_def Let_def split: sum.splits)
  from assms hw a b c d obtain class_args where
    e: "class_args_loop L shapes = Inr class_args"
    by (auto simp: load_sample_def Let_def split: sum.splits)
  from assms hw a b c d e have
    "s = \<lparr>image = img, masks = m, box_data = map2 (\<lambda>box arg. box @ [arg]) boxes' class_args\<rparr>"
    "g' = g2"
    by (simp_all add: load_sample_def Let_def)
  with hw a b c d e show ?thesis by auto
qed

lemma load_sample_rows:
  assumes "load_sample P L g = Inr (s, g')"
  shows "\<exists>H W shapes. image_size L = (H, W) \<and> draw_masks P L shapes = Inr (masks s)
           \<and> length (box_data s) = length shapes"
proof -
  from load_sample_parts [OF assms] obtain H W shapes0 g1 shapes boxes' class_args where
    hw: "image_size L = (H, W)"
    and f: "filter_shapes (compute_bounding_boxes shapes0) shapes0 (iou_thresh L)
             = Inr (shapes, boxes')"
    and m: "draw_masks P L shapes = Inr (masks s)"
    and c: "class_args_loop L shapes = Inr class_args"
    and b: "box_data s = map2 (\<lambda>box arg. box @ [arg]) boxes' class_args"
    by blast
  from filter_shapes_ok [of "compute_bounding_boxes shapes0" shapes0 "iou_thresh L"] f
  have "length shapes = length boxes'" by auto
  with class_args_loop_length [OF c] b have "length (box_data s) = length shapes"
    by simp
  with hw m show ?thesis by blast
qed

lemma filter_upt_bound:
  assumes "\<And>i. i < n \<Longrightarrow> Q i \<Longrightarrow> i < k" "k \<le> n"
  shows "filter Q [0..<n] = filter Q [0..<k]"
proof -
  have "[0..<n] = [0..<k] @ [k..<n]"
    using assms(2) by (metis le_add_diff_inverse upt_add_eq_append zero_le)
  moreover have "\<not> Q i" if "k \<le> i" "i < n" for i
    using assms(1) [of i] that by auto
  then have "filter Q [k..<n] = []"
    by (simp add: filter_empty_conv)
  ultimately show ?thesis by simp
qed

lemma length_filter_full:
  "length (filter Q xs) = length xs \<longleftrightarrow> (\<forall>x \<in> set xs. Q x)"
proof
  assume l: "length (filter Q xs) = length xs"
  show "\<forall>x \<in> set xs. Q x"
  proof (rule ccontr)
    assume "\<not> (\<forall>x \<in> set xs. Q x)"
    then obtain x where "x \<in> set xs" "\<not> Q x" by blast
    then have "length (filter Q xs) < length xs" by (rule length_filter_less)
    with l show False by simp
  qed
next
  assume "\<forall>x \<in> set xs. Q x"
  then have "filter Q xs = xs" by (simp add: filter_id_conv)
  then show "length (filter Q xs) = length xs" by simp
qed

text \<open>
  Claim C5, as amended.  For every sample produced by \<open>load_sample\<close>, the number of
  rows of \<open>box_data\<close> equals the number of shapes that survive the filter of
  \<open>_filter_shapes\<close>.  Mask channel \<open>i\<close> holds a non-zero pixel after occlusion
  resolution exactly when \<open>i\<close> is the index of a surviving shape that covers a pixel
  of the canvas which no later-drawn surviving shape covers.  Hence the number of
  non-empty channels is at most the number of rows, and the two numbers are equal
  exactly when every surviving shape keeps such a pixel.
\<close>

theorem box_rows_survivors_nonempty_channels:
  assumes "load_sample P L g = Inr (s, g')"
  shows "\<exists>H W shapes g1 survivors boxes'.
      image_size L = (H, W)
    \<and> sample_shapes L (max_num_shapes L) H W 20 g = Inr (shapes, g1)
    \<and> filter_shapes (compute_bounding_boxes shapes) shapes (iou_thresh L)
        = Inr (survivors, boxes')
    \<and> length (box_data s) = length survivors
    \<and> (\<forall>i < nat (max_num_shapes L).
          channel_nonempty (masks s) i
            \<longleftrightarrow> i < length survivors \<and> keeps_visible_pixel P L H W survivors i)
    \<and> length (nonempty_channels (nat (max_num_shapes L)) (masks s)) \<le> length (box_data s)
    \<and> (length (nonempty_channels (nat (max_num_shapes L)) (masks s)) = length (box_data s)
          \<longleftrightarrow> (\<forall>i < length survivors. keeps_visible_pixel P L H W survivors i))"
proof -
  from load_sample_parts [OF assms] obtain H W shapes g1 survivors boxes' class_args where
    hw: "image_size L = (H, W)"
    and sm: "sample_shapes L (max_num_shapes L) H W 20 g = Inr (shapes, g1)"
    and f: "filter_shapes (compute_bounding_boxes shapes) shapes (iou_thresh L)
             = Inr (survivors, boxes')"
    and m: "draw_masks P L survivors = Inr (masks s)"
    and c: "class_args_loop L survivors = Inr class_args"
    and b: "box_data s = map2 (\<lambda>box arg. box @ [arg]) boxes' class_args"
    by blast
  let ?n = "nat (max_num_shapes L)"
  from filter_shapes_ok [of "compute_bounding_boxes shapes" shapes "iou_thresh L"] f
  have "length survivors = length boxes'" by auto
  with class_args_loop_length [OF c] b have k: "length (box_data s) = length survivors"
    by simp
  have kn: "length survivors \<le> ?n" using draw_masks_closed(3) [OF m hw] .
  have ch: "channel_nonempty (masks s) i
            \<longleftrightarrow> i < length survivors \<and> keeps_visible_pixel P L H W survivors i"
    if "i < ?n" for i
  proof -
    have "keeps_visible_pixel P L H W survivors i
      \<longleftrightarrow> (\<exists>y < nat H. \<exists>x < nat W. shape_covers P L (survivors ! i) x y
            \<and> (\<forall>j. i < j \<and> j < length survivors
                   \<longrightarrow> \<not> shape_covers P L (survivors ! j) x y))"
      unfolding keeps_visible_pixel_def by (simp add: Bex_def Ball_def Suc_le_eq)
    with channel_nonempty_char [OF m hw that] show ?thesis by simp
  qed
  have lt: "i < length survivors" if "i < ?n" "channel_nonempty (masks s) i" for i
    using ch [OF that(1)] that(2) by simp
  have fl: "nonempty_channels ?n (masks s)
            = filter (channel_nonempty (masks s)) [0..<length survivors]"
    unfolding nonempty_channels_def using lt kn by (rule filter_upt_bound)
  have le: "length (nonempty_channels ?n (masks s)) \<le> length (box_data s)"
    unfolding fl k using length_filter_le [of "channel_nonempty (masks s)" "[0..<length survivors]"]
    by simp
  have "length (nonempty_channels ?n (masks s)) = length (box_data s)
            \<longleftrightarrow> (\<forall>i < length survivors. channel_nonempty (masks s) i)"
    unfolding fl k
    using length_filter_full [of "channel_nonempty (masks s)" "[0..<length survivors]"]
    by auto
  also have "\<dots> \<longleftrightarrow> (\<forall>i < length survivors. keeps_visible_pixel P L H W survivors i)"
    using ch kn by (meson less_le_trans)
  finally have eq: "length (nonempty_channels ?n (masks s)) = length (box_data s)
            \<longleftrightarrow> (\<forall>i < length survivors. keeps_visible_pixel P L H W survivors i)" .
  from hw sm f k ch le eq show ?thesis by blast
qed






lemma np_random_randint_ok:
  assumes "low < high"
  shows "\<exists>vs g'. np_random_randint low high n g = Inr (vs, g')"
  using assms
proof (induction n arbitrary: g)
  case 0
  then show ?case by simp
next
  case (Suc n)
  obtain r rest where nr: "next_raw (np_random g) = (r, rest)"
    by (cases "next_raw (np_random g)") auto
  from Suc.IH [OF Suc.prems, of "g\<lparr>np_random := rest\<rparr>"] obtain vs g' where
    "np_random_randint low high n (g\<lparr>np_random := rest\<rparr>) = Inr (vs, g')"
    by blast
  with Suc.prems nr show ?case by simp
qed

lemma draw_shapes_loop_ok:
  assumes "\<forall>s \<in> set shapes. raster_of P L (fst s) \<noteq> None"
  shows "\<exists>img'. draw_shapes_loop P L img shapes = Inr img'"
  using assms
proof (induction P L img shapes rule: draw_shapes_loop.induct)
  case (1 P L img)
  show ?case by simp
next
  case (2 P L img shape col dimensions rest)
  obtain cx cy sz where dims: "dimensions = (cx, cy, sz)"
    by (cases dimensions) auto
  from "2.prems" obtain r where r: "raster_of P L shape = Some r"
    by auto
  have ds: "draw_shape P L img shape dimensions col = Inr (stamp r img (cx, cy) col sz)"
    by (simp add: dims draw_shape_raster r)
  from "2.IH" [OF ds] "2.prems" obtain img' where
    "draw_shapes_loop P L (stamp r img (cx, cy) col sz) rest = Inr img'"
    by auto
  with ds show ?case by simp
qed

lemma draw_shapes_ok:
  assumes "image_size L = (H, W)" "0 \<le> H" "0 \<le> W"
    and "\<forall>s \<in> set shapes. raster_of P L (fst s) \<noteq> None"
  shows "\<exists>img g'. draw_shapes P L shapes g = Inr (img, g')"
proof -
  obtain bg g1 where bg: "np_random_randint 0 255 3 g = Inr (bg, g1)"
    using np_random_randint_ok [of 0 255 3 g] by auto
  have f: "np_full H W bg = Inr (replicate (nat H) (replicate (nat W) bg))"
    using assms(2,3) by (simp add: np_full_def)
  from draw_shapes_loop_ok [OF assms(4)] obtain img' where
    "draw_shapes_loop P L (replicate (nat H) (replicate (nat W) bg)) shapes = Inr img'"
    by blast
  with bg f assms(1) show ?thesis
    by (simp add: draw_shapes_def)
qed

lemma example_sampled:
  "sample_shapes example_loader 4 256 256 20 example_rng
     = Inr (example_shapes, \<lparr>py_random = [], np_random = [200, 200, 200]\<rparr>)"
  by code_simp

lemma example_filtered:
  "filter_shapes (compute_bounding_boxes example_shapes) example_shapes (3 / 10)
     = Inr (example_survivors, [[108, 108, 148, 148], [91, 91, 165, 165]])"
  by code_simp

lemma example_class_args: "class_args_loop example_loader (example_survivors) = Inr [1, 1]"
  by code_simp

lemma example_fields:
  "image_size example_loader = (256, 256)" "max_num_shapes example_loader = 4"
  "iou_thresh example_loader = 3 / 10"
  by (simp_all add: example_loader_def Shapes_def)

lemma example_raster: "raster_of example_primitives example_loader ''square'' = Some filled_square"
  by (simp add: raster_of_def dict_zip_def example_loader_def Shapes_def example_primitives_def)

lemma example_rasters:
  "\<forall>s \<in> set (example_survivors). raster_of example_primitives example_loader (fst s) \<noteq> None"
  by (simp add: example_survivors_def example_raster)

lemma example_covers:
  "shape_covers example_primitives example_loader (example_survivors ! 0) x y
     = filled_square (128, 128) 20 (int x) (int y)"
  "shape_covers example_primitives example_loader (example_survivors ! 1) x y
     = filled_square (128, 128) 37 (int x) (int y)"
  by (simp_all add: shape_covers_def example_survivors_def example_raster)

lemma example_run:
  "\<exists>s g'. load_sample example_primitives example_loader example_rng = Inr (s, g')
       \<and> box_data s = [[108, 108, 148, 148, 1], [91, 91, 165, 165, 1]]
       \<and> nonempty_channels 4 (masks s) = [1]"
proof -
  let ?P = example_primitives and ?L = example_loader
  let ?sel = "example_survivors"
  let ?g1 = "\<lparr>py_random = [], np_random = [200, 200, 200]\<rparr>"
  obtain img g2 where img: "draw_shapes ?P ?L ?sel ?g1 = Inr (img, g2)"
    using draw_shapes_ok [OF example_fields(1) _ _ example_rasters, of ?g1] by auto
  have len: "length ?sel = 2" by (simp add: example_survivors_def)
  have "draw_class_masks ?P ?L ?sel
        = Inr (map (\<lambda>y. map (\<lambda>x. map (\<lambda>i. if i < length ?sel \<and> shape_covers ?P ?L (?sel ! i) x y
                                              then 1 else 0)
                                      [0..<nat (max_num_shapes ?L)])
                             [0..<nat 256])
                    [0..<nat 256])"
    using example_rasters len
    by (intro draw_class_masks_closed [OF example_fields(1)]) (simp_all add: example_fields)
  then obtain ms where ms: "draw_masks ?P ?L ?sel = Inr ms"
    by (simp add: draw_masks_def)
  define s where "s = \<lparr>image = img, masks = ms,
     box_data = map2 (\<lambda>box arg. box @ [arg]) [[108, 108, 148, 148], [91, 91, 165, 165]] [1, 1]\<rparr>"
  have run: "load_sample ?P ?L example_rng = Inr (s, g2)"
    by (simp add: load_sample_def example_fields example_sampled example_filtered img ms
        example_class_args s_def)
  have n4: "nat (max_num_shapes ?L) = 4" by (simp add: example_fields)
  have c0: "\<not> channel_nonempty ms 0"
  proof
    assume "channel_nonempty ms 0"
    with channel_nonempty_char [OF ms example_fields(1), of 0] n4
    have "\<exists>y < nat 256. \<exists>x < nat 256. shape_covers ?P ?L (?sel ! 0) x y
               \<and> (\<forall>j. 0 < j \<and> j < length ?sel \<longrightarrow> \<not> shape_covers ?P ?L (?sel ! j) x y)"
      by simp
    then obtain y x where
      a: "shape_covers ?P ?L (?sel ! 0) x y"
      and b: "\<forall>j. 0 < j \<and> j < length ?sel \<longrightarrow> \<not> shape_covers ?P ?L (?sel ! j) x y"
      by blast
    from b len have "\<not> shape_covers ?P ?L (?sel ! 1) x y" by simp
    with a show False
      unfolding example_covers by (simp add: filled_square_def)
  qed
  have c1: "channel_nonempty ms 1"
  proof -
    have a: "shape_covers ?P ?L (?sel ! 1) 128 128"
      unfolding example_covers by (simp add: filled_square_def)
    have b: "\<forall>j. 1 < j \<and> j < length ?sel \<longrightarrow> \<not> shape_covers ?P ?L (?sel ! j) 128 128"
      using len by auto
    have c: "(128::nat) < nat 256" by simp
    have "\<exists>y < nat 256. \<exists>x < nat 256. shape_covers ?P ?L (?sel ! 1) x y
               \<and> (\<forall>j. 1 < j \<and> j < length ?sel \<longrightarrow> \<not> shape_covers ?P ?L (?sel ! j) x y)"
      by (rule exI [of _ 128], rule conjI [OF c], rule exI [of _ 128], rule conjI [OF c],
          rule conjI [OF a b])
    moreover have "1 < length ?sel" using len by simp
    ultimately show ?thesis
      using channel_nonempty_char [OF ms example_fields(1), of 1] n4 by simp
  qed
  have c2: "\<not> channel_nonempty ms 2"
    using channel_nonempty_char [OF ms example_fields(1), of 2] n4 len by simp
  have c3: "\<not> channel_nonempty ms 3"
    using channel_nonempty_char [OF ms example_fields(1), of 3] n4 len by simp
  have u4: "[0..<4] = [0, 1, 2, 3]"
    by code_simp
  have "nonempty_channels 4 ms = [1]"
    using c0 c1 c2 c3 by (simp add: nonempty_channels_def u4)
  with run show ?thesis
    by (intro exI [of _ s] exI [of _ g2]) (simp add: s_def)
qed

lemma example_sampled_max:
  "sample_shapes example_loader (max_num_shapes example_loader) 256 256 20 example_rng
     = Inr (example_shapes, \<lparr>py_random = [], np_random = [200, 200, 200]\<rparr>)"
  using example_sampled by (simp add: example_fields)

text \<open>
  Claim C5 as stated fails.  In the concrete run the two surviving shapes are a square
  of size 20 and, drawn after it, a concentric square of size 37 that covers it
  completely: \<open>box_data\<close> has two rows, but after occlusion resolution only one mask
  channel (channel 1) holds a non-zero pixel.
\<close>

theorem box_rows_counterexample:
  "(case load_sample example_primitives example_loader example_rng of
      Inl e \<Rightarrow> None
    | Inr (s, g') \<Rightarrow> Some (length (box_data s), length (nonempty_channels 4 (masks s))))
   = Some (2, 1)"
proof -
  from example_run obtain s g' where
    "load_sample example_primitives example_loader example_rng = Inr (s, g')"
    "box_data s = [[108, 108, 148, 148, 1], [91, 91, 165, 165, 1]]"
    "nonempty_channels 4 (masks s) = [1]"
    by blast
  then show ?thesis by (simp only: sum.case prod.case list.size) simp
qed

theorem box_rows_survivors_nonempty_channels_witness:
  "\<exists>s g'. load_sample example_primitives example_loader example_rng = Inr (s, g')
     \<and> length (box_data s) = 2
     \<and> nonempty_channels 4 (masks s) = [1]
     \<and> (\<exists>H W shapes g1 survivors boxes'.
      image_size example_loader = (H, W)
    \<and> sample_shapes example_loader (max_num_shapes example_loader) H W 20 example_rng
        = Inr (shapes, g1)
    \<and> filter_shapes (compute_bounding_boxes shapes) shapes (iou_thresh example_loader)
        = Inr (survivors, boxes')
    \<and> length (box_data s) = length survivors
    \<and> (\<forall>i < nat (max_num_shapes example_loader).
          channel_nonempty (masks s) i
            \<longleftrightarrow> i < length survivors
                \<and> keeps_visible_pixel example_primitives example_loader H W survivors i)
    \<and> length (nonempty_channels (nat (max_num_shapes example_loader)) (masks s))
        \<le> length (box_data s)
    \<and> (length (nonempty_channels (nat (max_num_shapes example_loader)) (masks s))
          = length (box_data s)
          \<longleftrightarrow> (\<forall>i < length survivors.
                 keeps_visible_pixel example_primitives example_loader H W survivors i)))"
proof -
  from example_run obtain s g' where
    run: "load_sample example_primitives example_loader example_rng = Inr (s, g')"
    and b: "box_data s = [[108, 108, 148, 148, 1], [91, 91, 165, 165, 1]]"
    and n: "nonempty_channels 4 (masks s) = [1]"
    by blast
  have l: "length (box_data s) = 2" by (simp add: b)
  show ?thesis
    by (rule exI [of _ s], rule exI [of _ g'], rule conjI [OF run], rule conjI [OF l],
        rule conjI [OF n], rule box_rows_survivors_nonempty_channels [OF run])
qed


theorem survivors_within_capacity_witness:
  "\<exists>selected boxes'.
       filter_shapes (compute_bounding_boxes example_shapes) example_shapes
         (iou_thresh example_loader) = Inr (selected, boxes')
     \<and> length selected \<le> length example_shapes
     \<and> int (length example_shapes) \<le> max_num_shapes example_loader
     \<and> int (length selected) \<le> max_num_shapes example_loader
     \<and> draw_masks example_primitives example_loader selected \<noteq> Inl IndexError"
  using survivors_within_capacity [OF example_sampled_max, of example_primitives] .

theorem sample_shapes_ranges_witness:
  "1 \<le> length example_shapes \<and> int (length example_shapes) \<le> 4
   \<and> list_all (drawn_in_range example_loader 256 256) example_shapes
   \<and> drawn_in_range example_loader 256 256 (''square'', [10, 20, 30], 128, 128, 20)"
  using sample_shapes_ranges [OF example_sampled] by (simp add: example_shapes_def)

end
